theory Spec2Isabelle
  imports Complex_Main
begin

section \<open>Arrays of the numeric library\<close>

text \<open>
  The notebook works on two-dimensional arrays. An array carries its shape and its
  cells, row by row; the library keeps every row of the length the shape gives
  (\<open>wf_array\<close>). Python integers are unbounded (\<open>int\<close>); indices produced by
  \<open>range\<close> are naturals. The mask has dtype int16; it only ever holds 0, 1 and 2,
  so its cells are modelled as \<open>int\<close>.
\<close>

datatype error = IndexError | ValueError | AttributeError | StopIteration | OverflowError

record 'a ndarray =
  shape :: "nat \<times> nat"
  rows :: "'a list list"

definition wf_array :: "'a ndarray \<Rightarrow> bool" where
  "wf_array a \<longleftrightarrow>
     length (rows a) = fst (shape a) \<and> list_all (\<lambda>r. length r = snd (shape a)) (rows a)"

text \<open>\<open>np.zeros(shape)\<close>.\<close>

definition np_zeros :: "nat \<times> nat \<Rightarrow> int ndarray" where
  "np_zeros s = \<lparr>shape = s, rows = replicate (fst s) (replicate (snd s) 0)\<rparr>"

text \<open>\<open>a[i, j]\<close> and \<open>a[i, j] = v\<close> for non-negative indices: out of the shape
  the library raises IndexError.\<close>

definition getitem :: "'a ndarray \<Rightarrow> nat \<times> nat \<Rightarrow> error + 'a" where
  "getitem a p =
     (if fst p < fst (shape a) \<and> snd p < snd (shape a)
      then Inr (rows a ! fst p ! snd p) else Inl IndexError)"

definition setitem :: "'a ndarray \<Rightarrow> nat \<times> nat \<Rightarrow> 'a \<Rightarrow> error + 'a ndarray" where
  "setitem a p v =
     (if fst p < fst (shape a) \<and> snd p < snd (shape a)
      then Inr (a\<lparr>rows := (rows a)[fst p := (rows a ! fst p)[snd p := v]]\<rparr>)
      else Inl IndexError)"

text \<open>
  Python's \<open>slice(start, stop)\<close> on a sequence of length \<open>n\<close>: a negative bound
  counts from the end, and both bounds are clamped to \<open>[0, n]\<close>.
\<close>

definition slice_indices :: "int \<times> int \<Rightarrow> nat \<Rightarrow> nat \<times> nat" where
  "slice_indices sl n =
     (let norm = (\<lambda>k. if k < 0 then max (k + int n) 0 else min k (int n))
      in (nat (norm (fst sl)), nat (norm (snd sl))))"

definition getslice :: "'a list \<Rightarrow> int \<times> int \<Rightarrow> 'a list" where
  "getslice xs sl =
     (let (a, b) = slice_indices sl (length xs) in take (b - a) (drop a xs))"

text \<open>\<open>a[slice_r, slice_c]\<close>: the rows of the first slice, each cut to the second.\<close>

definition getslice2 :: "'a ndarray \<Rightarrow> (int \<times> int) \<times> (int \<times> int) \<Rightarrow> 'a ndarray" where
  "getslice2 a sls =
     (let (ra, rb) = slice_indices (fst sls) (fst (shape a));
          (ca, cb) = slice_indices (snd sls) (snd (shape a))
      in \<lparr>shape = (rb - ra, cb - ca),
          rows = map (\<lambda>r. getslice r (snd sls)) (getslice (rows a) (fst sls))\<rparr>)"

section \<open>The morphology primitive\<close>

text \<open>
  \<open>ndi.grey_dilation(input, size=sz)\<close> with a scalar size uses a flat, full
  structuring element: it is the library's maximum filter, run along each axis in turn
  when \<open>sz > 1\<close> and a plain copy otherwise, with the default boundary mode
  \<open>reflect\<close> (\<open>d c b a | a b c d | d c b a\<close>). The origin is 0, moved by one
  for an even size. The filter along an axis is compiled code that takes the size as a
  C \<open>ssize_t\<close> (64 bits): a larger size raises OverflowError at the call, before
  anything is computed. Exhaustion of memory is outside the model.
\<close>

definition ssize_max :: int where
  "ssize_max = 2 ^ 63 - 1"

definition reflect :: "nat \<Rightarrow> int \<Rightarrow> nat" where
  "reflect n x =
     (let m = x mod (2 * int n) in nat (if m < int n then m else 2 * int n - 1 - m))"

definition maximum_filter1d :: "int ndarray \<Rightarrow> int \<Rightarrow> nat \<Rightarrow> int \<Rightarrow> int ndarray" where
  "maximum_filter1d a sz axis origin =
     (let h = fst (shape a); w = snd (shape a);
          size1 = sz div 2; size2 = sz - size1 - 1;
          offs = [- (size1 + origin) .. size2 - origin]
      in \<lparr>shape = shape a,
          rows = map (\<lambda>r. map (\<lambda>c. Max (set (map (\<lambda>d.
                      if axis = 0 then rows a ! reflect h (int r + d) ! c
                      else rows a ! r ! reflect w (int c + d)) offs)))
                    [0..<w]) [0..<h]\<rparr>)"

definition grey_dilation :: "int ndarray \<Rightarrow> int \<Rightarrow> error + int ndarray" where
  "grey_dilation a sz =
     (let origin = (if even sz then - 1 else 0)
      in if sz > 1
         then (if sz > ssize_max then Inl OverflowError
               else Inr (maximum_filter1d (maximum_filter1d a sz 0 origin) sz 1 origin))
         else Inr a)"

section \<open>The neighbourhood window iterator\<close>

text \<open>
  A generator run to its end has yielded a list of values and has then either finished
  (\<open>None\<close>) or raised (\<open>Some e\<close>). \<open>yield_each\<close> is a \<open>for\<close> loop whose body
  yields once per element and stops at the first raise.
\<close>

type_synonym 'b generated = "'b list \<times> error option"

fun yield_each :: "('a \<Rightarrow> error + 'b) \<Rightarrow> 'a list \<Rightarrow> 'b generated" where
  "yield_each body [] = ([], None)"
| "yield_each body (x # xs) =
     (case body x of
        Inl e \<Rightarrow> ([], Some e)
      | Inr y \<Rightarrow> (case yield_each body xs of (ys, r) \<Rightarrow> (y # ys, r)))"

text \<open>
  \<^verbatim>\<open>
  def iter_pixels(image):
      height, width = image.shape[:2]
      for i in range(height):
          for j in range(width):
              yield (i, j), image[i, j]
  \<close>
\<close>

definition pixel_positions :: "nat \<times> nat \<Rightarrow> (nat \<times> nat) list" where
  "pixel_positions s = concat (map (\<lambda>i. map (\<lambda>j. (i, j)) [0..<snd s]) [0..<fst s])"

definition iter_pixels :: "'a ndarray \<Rightarrow> ((nat \<times> nat) \<times> 'a) generated" where
  "iter_pixels img =
     yield_each (\<lambda>p. case getitem img p of Inl e \<Rightarrow> Inl e | Inr pixel \<Rightarrow> Inr (p, pixel))
       (pixel_positions (shape img))"

text \<open>
  \<^verbatim>\<open>
  def bounded_slice(center, xy_max, size=1, i_min=0):
      slices = []
      for i, i_max in zip(center, xy_max):
          slices.append(slice(max(i - size, i_min), min(i + size + 1, i_max)))
      return slices
  \<close>
  \<open>center\<close> and \<open>xy_max\<close> are pairs at the only call, so two slices come back;
  indexing the image with the list of the two slices is indexing it with the pair of
  them, as the array library of the notebook reads it.
\<close>

definition bounded_slice ::
  "int \<times> int \<Rightarrow> int \<times> int \<Rightarrow> int \<Rightarrow> int \<Rightarrow> (int \<times> int) \<times> (int \<times> int)" where
  "bounded_slice center xy_max sz i_min =
     (let sl = (\<lambda>i i_max. (max (i - sz) i_min, min (i + sz + 1) i_max))
      in (sl (fst center) (fst xy_max), sl (snd center) (snd xy_max)))"

text \<open>
  \<^verbatim>\<open>
  def iter_kernel(image, size=1):
      width = 2*size + 1
      for (i, j), pixel in iter_pixels(image):
          mask = np.zeros(image.shape, dtype='int16')
          mask[i, j] = 1
          mask = ndi.grey_dilation(mask, size=width)
          mask[i, j] = 2
          subimage = image[bounded_slice((i, j), image.shape[:2], size=size)]
          yield (i, j), mask, subimage
  \<close>
\<close>

type_synonym 'a triple = "(nat \<times> nat) \<times> int ndarray \<times> 'a ndarray"

definition kernel_step :: "'a ndarray \<Rightarrow> int \<Rightarrow> (nat \<times> nat) \<times> 'a \<Rightarrow> error + 'a triple" where
  "kernel_step img sz px =
     (let p = fst px; kwidth = 2 * sz + 1 in
      case setitem (np_zeros (shape img)) p 1 of
        Inl e \<Rightarrow> Inl e
      | Inr msk1 \<Rightarrow>
         (case grey_dilation msk1 kwidth of
            Inl e \<Rightarrow> Inl e
          | Inr dilated \<Rightarrow>
             (case setitem dilated p 2 of
                Inl e \<Rightarrow> Inl e
              | Inr msk \<Rightarrow>
                  Inr (p, msk,
                       getslice2 img
                         (bounded_slice (int (fst p), int (snd p))
                            (int (fst (shape img)), int (snd (shape img))) sz 0)))))"

definition iter_kernel :: "'a ndarray \<Rightarrow> int \<Rightarrow> 'a triple generated" where
  "iter_kernel img sz =
     (case iter_pixels img of
        (pixels, r) \<Rightarrow>
          (case yield_each (kernel_step img sz) pixels of
             (ys, r') \<Rightarrow> (ys, case r' of Some e \<Rightarrow> Some e | None \<Rightarrow> r)))"

section \<open>Reference definitions for the window and the mask\<close>

text \<open>
  The window and the mask as the specification words them, to compare with what the
  code computes. The array whose cell \<open>(r, c)\<close> is \<open>f r c\<close>.
\<close>

definition tabulate :: "nat \<times> nat \<Rightarrow> (nat \<Rightarrow> nat \<Rightarrow> 'a) \<Rightarrow> 'a ndarray" where
  "tabulate s f = \<lparr>shape = s, rows = map (\<lambda>r. map (\<lambda>c. f r c) [0..<snd s]) [0..<fst s]\<rparr>"

text \<open>
  The clamped bounds of the window along one axis of length \<open>n\<close> around index
  \<open>i\<close>: from \<open>max(i - size, 0)\<close> up to, not including, \<open>min(i + size + 1, n)\<close>.
\<close>

definition window_bounds :: "int \<Rightarrow> nat \<Rightarrow> nat \<Rightarrow> nat \<times> nat" where
  "window_bounds sz n i = (nat (max (int i - sz) 0), nat (min (int i + sz + 1) (int n)))"

definition in_window :: "int \<Rightarrow> nat \<Rightarrow> nat \<Rightarrow> nat \<Rightarrow> bool" where
  "in_window sz n i r \<longleftrightarrow> fst (window_bounds sz n i) \<le> r \<and> r < snd (window_bounds sz n i)"

text \<open>
  Direct clamped-range assignment: a zero array of shape \<open>s\<close>, the cells of the
  clamped window around \<open>p\<close> set to 1, then the cell \<open>p\<close> set to 2.
\<close>

definition clamped_mask :: "nat \<times> nat \<Rightarrow> int \<Rightarrow> nat \<times> nat \<Rightarrow> int ndarray" where
  "clamped_mask s sz p =
     \<lparr>shape = s,
      rows = map (\<lambda>r. map (\<lambda>c.
               if (r, c) = p then 2
               else if in_window sz (fst s) (fst p) r \<and> in_window sz (snd s) (snd p) c then 1
               else 0) [0..<snd s]) [0..<fst s]\<rparr>"

text \<open>The array restricted to the rows \<open>[fst rb, snd rb)\<close> and the columns
  \<open>[fst cb, snd cb)\<close>.\<close>

definition restrict_array :: "'a ndarray \<Rightarrow> nat \<times> nat \<Rightarrow> nat \<times> nat \<Rightarrow> 'a ndarray" where
  "restrict_array a rb cb =
     \<lparr>shape = (snd rb - fst rb, snd cb - fst cb),
      rows = map (\<lambda>r. map (\<lambda>c. rows a ! r ! c) [fst cb..<snd cb]) [fst rb..<snd rb]\<rparr>"

definition clamped_window :: "'a ndarray \<Rightarrow> int \<Rightarrow> nat \<times> nat \<Rightarrow> 'a ndarray" where
  "clamped_window a sz p =
     restrict_array a (window_bounds sz (fst (shape a)) (fst p))
                      (window_bounds sz (snd (shape a)) (snd p))"

text \<open>The demo image of the notebook:
  \<^verbatim>\<open>bright_square = np.zeros((7, 7), dtype=float); bright_square[2:5, 2:5] = 1\<close>.\<close>

definition bright_square :: "real ndarray" where
  "bright_square = tabulate (7, 7) (\<lambda>r c. if 2 \<le> r \<and> r < 5 \<and> 2 \<le> c \<and> c < 5 then 1 else 0)"

section \<open>The iterator on a store of arrays\<close>

text \<open>
  The same \<open>iter_kernel\<close>, now with the arrays as objects: what is allocated, what
  is written in place and what is shared.
  Arrays are objects that the program mutates in place and shares. The store keeps the
  pixel arrays and the int16 arrays allocated so far; an array's address is its index,
  and an allocation appends. A basic slice of an array is a view: it keeps the address
  of its base and the slices, and reads through to the base.
\<close>

type_synonym addr = nat

record 'a heap =
  images :: "'a ndarray list"
  masks :: "int ndarray list"

record view =
  base :: addr
  slices :: "(int \<times> int) \<times> (int \<times> int)"

definition deref_view :: "'a heap \<Rightarrow> view \<Rightarrow> 'a ndarray" where
  "deref_view h v = getslice2 (images h ! base v) (slices v)"

text \<open>
  The generator object of \<open>iter_kernel\<close>: the image it was called with, the size, and
  the positions that \<open>iter_pixels\<close> has still to yield. Each \<open>next\<close> runs the loop
  body once: \<open>np.zeros\<close> and \<open>grey_dilation\<close> allocate (the latter only when
  it returns), the two item assignments write in place, the slice is a view of the
  image. A raise ends the generator.
\<close>

record kernel_gen =
  g_image :: addr
  g_size :: int
  g_pending :: "(nat \<times> nat) list"

definition iter_kernel_gen :: "'a heap \<Rightarrow> addr \<Rightarrow> int \<Rightarrow> kernel_gen" where
  "iter_kernel_gen h a sz =
     \<lparr>g_image = a, g_size = sz, g_pending = pixel_positions (shape (images h ! a))\<rparr>"

definition next_kernel ::
  "kernel_gen \<Rightarrow> 'a heap \<Rightarrow> (error + ((nat \<times> nat) \<times> addr \<times> view)) \<times> kernel_gen \<times> 'a heap" where
  "next_kernel g h =
     (case g_pending g of
        [] \<Rightarrow> (Inl StopIteration, g, h)
      | p # ps \<Rightarrow>
         (let img = images h ! g_image g in
          case getitem img p of
            Inl e \<Rightarrow> (Inl e, g\<lparr>g_pending := []\<rparr>, h)
          | Inr pixel \<Rightarrow>
             (let m0 = length (masks h);
                  h1 = h\<lparr>masks := masks h @ [np_zeros (shape img)]\<rparr> in
              case setitem (masks h1 ! m0) p 1 of
                Inl e \<Rightarrow> (Inl e, g\<lparr>g_pending := []\<rparr>, h1)
              | Inr marked \<Rightarrow>
                 (let h2 = h1\<lparr>masks := (masks h1)[m0 := marked]\<rparr> in
                  case grey_dilation (masks h2 ! m0) (2 * g_size g + 1) of
                    Inl e \<Rightarrow> (Inl e, g\<lparr>g_pending := []\<rparr>, h2)
                  | Inr dilation \<Rightarrow>
                     (let m1 = length (masks h2);
                          h3 = h2\<lparr>masks := masks h2 @ [dilation]\<rparr> in
                      case setitem (masks h3 ! m1) p 2 of
                        Inl e \<Rightarrow> (Inl e, g\<lparr>g_pending := []\<rparr>, h3)
                      | Inr centred \<Rightarrow>
                         (let h4 = h3\<lparr>masks := (masks h3)[m1 := centred]\<rparr>;
                              subimage = \<lparr>base = g_image g,
                                          slices = bounded_slice (int (fst p), int (snd p))
                                            (int (fst (shape img)), int (snd (shape img)))
                                            (g_size g) 0\<rparr>
                          in (Inr (p, m1, subimage), g\<lparr>g_pending := ps\<rparr>, h4)))))))"

text \<open>
  A \<open>for\<close> loop over the generator: it takes the triples one by one until the generator
  stops, and records each mask and window as they are when yielded.
\<close>

function drain_kernel :: "kernel_gen \<Rightarrow> 'a heap \<Rightarrow> 'a triple generated \<times> 'a heap" where
  "drain_kernel g h =
     (case next_kernel g h of
        (Inl e, g', h') \<Rightarrow> (([], if e = StopIteration then None else Some e), h')
      | (Inr (p, m, v), g', h') \<Rightarrow>
          (case drain_kernel g' h' of
             ((ys, r), h'') \<Rightarrow> (((p, masks h' ! m, deref_view h' v) # ys, r), h'')))"
  by pat_completeness auto

termination drain_kernel
  by (relation "measure (\<lambda>(g, h). length (g_pending g))")
    (auto simp: next_kernel_def Let_def split: list.splits sum.splits)

text \<open>
  The array the dilation returns when it returns, the value of the mask that one run of
  the loop body then leaves behind, and the slices it takes, as functions of the shape,
  the size and the position.
\<close>

definition dilated :: "int ndarray \<Rightarrow> int \<Rightarrow> int ndarray" where
  "dilated a sz = (case grey_dilation a sz of Inl e \<Rightarrow> a | Inr d \<Rightarrow> d)"

definition kernel_mask :: "nat \<times> nat \<Rightarrow> int \<Rightarrow> nat \<times> nat \<Rightarrow> int ndarray" where
  "kernel_mask s sz p =
     (let d = dilated (tabulate s (\<lambda>r c. if (r, c) = p then 1 else 0)) (2 * sz + 1)
      in d\<lparr>rows := (rows d)[fst p := (rows d ! fst p)[snd p := 2]]\<rparr>)"

definition kernel_slices :: "nat \<times> nat \<Rightarrow> int \<Rightarrow> nat \<times> nat \<Rightarrow> (int \<times> int) \<times> (int \<times> int)" where
  "kernel_slices s sz p =
     bounded_slice (int (fst p), int (snd p)) (int (fst s), int (snd s)) sz 0"

text \<open>
  A caller that interleaves \<open>next\<close> with writes into the masks it has been given:
  \<open>Mutate k x\<close> overwrites the cells of the \<open>k\<close>-th yielded mask with those of
  \<open>x\<close>. The session keeps the triples received so far, the generator and the store.
\<close>

datatype action = Next | Mutate nat "int ndarray"

type_synonym 'a session = "((nat \<times> nat) \<times> addr \<times> view) list \<times> kernel_gen \<times> 'a heap"

fun interact :: "action list \<Rightarrow> 'a session \<Rightarrow> 'a session" where
  "interact [] s = s"
| "interact (Next # acts) (ys, g, h) =
     (case next_kernel g h of
        (Inl e, g', h') \<Rightarrow> interact acts (ys, g', h')
      | (Inr y, g', h') \<Rightarrow> interact acts (ys @ [y], g', h'))"
| "interact (Mutate k x # acts) (ys, g, h) =
     interact acts
       (ys, g, if k < length ys then h\<lparr>masks := (masks h)[fst (snd (ys ! k)) := x]\<rparr> else h)"

definition session_inv ::
  "'a heap \<Rightarrow> addr \<Rightarrow> int \<Rightarrow> nat set \<Rightarrow> 'a session \<Rightarrow> bool" where
  "session_inv h0 a sz K s \<longleftrightarrow>
     (case s of (ys, g, h) \<Rightarrow>
        let sh = shape (images h0 ! a); ps = pixel_positions sh in
        images h = images h0 \<and> g_image g = a \<and> g_size g = sz
      \<and> length ys \<le> length ps \<and> g_pending g = drop (length ys) ps
      \<and> length (masks h) = length (masks h0) + 2 * length ys
      \<and> (\<forall>k<length ys. ys ! k =
            (ps ! k, length (masks h0) + 2 * k + 1, \<lparr>base = a, slices = kernel_slices sh sz (ps ! k)\<rparr>))
      \<and> (\<forall>k<length ys. k \<notin> K \<longrightarrow>
            masks h ! (length (masks h0) + 2 * k + 1) = kernel_mask sh sz (ps ! k)))"

text \<open>A store that holds the demo image alone, and a caller that takes a triple,
  blanks its mask and takes the next triple.\<close>

definition demo_heap :: "real heap" where
  "demo_heap = \<lparr>images = [bright_square], masks = []\<rparr>"

definition demo_session :: "real session" where
  "demo_session =
     interact [Next, Mutate 0 (np_zeros (7, 7)), Next] ([], iter_kernel_gen demo_heap 0 1, demo_heap)"

section \<open>The mean filter demo\<close>

text \<open>
  \<^verbatim>\<open>
  def mean_filter_demo(image, vmax=1):
      mean_factor = 1.0 / 9.0  # This assumes a 3x3 kernel.
      iter_kernel_and_subimage = iter_kernel(image)

      image_cache = []

      def mean_filter_step(i_step):
          while i_step >= len(image_cache):
              filtered = image if i_step == 0 else image_cache[-1][1]
              filtered = filtered.copy()

              (i, j), mask, subimage = next(iter_kernel_and_subimage)
              filter_overlay = color.label2rgb(mask, image, bg_label=0,
                                               colors=('yellow', 'red'))
              filtered[i, j] = np.sum(mean_factor * subimage)
              image_cache.append((filter_overlay, filtered))

          nimages = len(image_cache[i_step])
          fig, axes = plt.subplots(1, nimages, figsize=(10, 5))
          for ax, imc in zip(axes, image_cache[i_step]):
              ax.imshow(imc, vmax=vmax)
          plt.show()
      return mean_filter_step
  \<close>
  The copy \<open>filtered\<close> has the pixel type of \<open>image\<close>, whatever it is, while
  \<open>mean_factor\<close>, the product \<open>mean_factor * subimage\<close> and its sum are floats; the
  assignment \<open>filtered[i, j] = ...\<close> converts the float to the pixel type. The
  arithmetic is a parameter of the model: the float \<open>1.0 / 9.0\<close>, the product of a
  float and a pixel, the float sum of the cells of an array in row-major order, and the
  conversion done by the assignment. The colouring \<open>label2rgb\<close> of the plotting
  library is a parameter too: a function of the mask and the image. The closure keeps
  the image, the generator and the cache of frames; a frame is the overlay and the
  address of its filtered array.
\<close>

record ('p, 'f) arith =
  mean_factor :: 'f
  multiply :: "'f \<Rightarrow> 'p \<Rightarrow> 'f"
  add_all :: "'f list \<Rightarrow> 'f"
  astype :: "'f \<Rightarrow> 'p"

definition scale :: "('p, 'f) arith \<Rightarrow> 'f \<Rightarrow> 'p ndarray \<Rightarrow> 'f ndarray" where
  "scale ar k a = \<lparr>shape = shape a, rows = map (map (multiply ar k)) (rows a)\<rparr>"

definition np_sum :: "('p, 'f) arith \<Rightarrow> 'f ndarray \<Rightarrow> 'f" where
  "np_sum ar a = add_all ar (concat (rows a))"

text \<open>
  The arithmetic of a float64 image such as the notebook's \<open>bright_square\<close>, read
  without rounding: pixels and floats are reals, the factor is the ninth, and the
  assignment converts nothing.
\<close>

definition exact :: "(real, real) arith" where
  "exact = \<lparr>mean_factor = 1 / 9, multiply = (\<lambda>k x. k * x), add_all = sum_list,
             astype = (\<lambda>x. x)\<rparr>"

record 'o demo =
  d_image :: addr
  d_gen :: kernel_gen
  d_cache :: "('o \<times> addr) list"

definition mean_filter_demo :: "'p heap \<Rightarrow> addr \<Rightarrow> 'o demo" where
  "mean_filter_demo h img = \<lparr>d_image = img, d_gen = iter_kernel_gen h img 1, d_cache = []\<rparr>"

text \<open>The body of the \<open>while\<close> loop of \<open>mean_filter_step\<close>: it ends normally
  (\<open>None\<close>) with one more frame in the cache, or with the exception that left it.\<close>

definition cache_next_frame ::
  "('p, 'f) arith \<Rightarrow> (int ndarray \<Rightarrow> 'p ndarray \<Rightarrow> 'o) \<Rightarrow> int \<Rightarrow> 'o demo \<Rightarrow> 'p heap
     \<Rightarrow> error option \<times> 'o demo \<times> 'p heap" where
  "cache_next_frame ar label2rgb i_step d h =
     (case (if i_step = 0 then Inr (d_image d)
            else if d_cache d = [] then Inl IndexError
            else Inr (snd (last (d_cache d)))) of
        Inl e \<Rightarrow> (Some e, d, h)
      | Inr src \<Rightarrow>
         (let filtered = length (images h);
              h1 = h\<lparr>images := images h @ [images h ! src]\<rparr>
          in case next_kernel (d_gen d) h1 of
               (Inl e, g', h2) \<Rightarrow> (Some e, d\<lparr>d_gen := g'\<rparr>, h2)
             | (Inr (p, m, subimage), g', h2) \<Rightarrow>
                 (let filter_overlay = label2rgb (masks h2 ! m) (images h2 ! d_image d);
                      v = np_sum ar (scale ar (mean_factor ar) (deref_view h2 subimage))
                  in case setitem (images h2 ! filtered) p (astype ar v) of
                       Inl e \<Rightarrow> (Some e, d\<lparr>d_gen := g'\<rparr>, h2)
                     | Inr written \<Rightarrow>
                         (None,
                          d\<lparr>d_gen := g', d_cache := d_cache d @ [(filter_overlay, filtered)]\<rparr>,
                          h2\<lparr>images := (images h2)[filtered := written]\<rparr>))))"

function fill_cache ::
  "('p, 'f) arith \<Rightarrow> (int ndarray \<Rightarrow> 'p ndarray \<Rightarrow> 'o) \<Rightarrow> int \<Rightarrow> 'o demo \<Rightarrow> 'p heap
     \<Rightarrow> error option \<times> 'o demo \<times> 'p heap" where
  "fill_cache ar label2rgb i_step d h =
     (if i_step \<ge> int (length (d_cache d)) then
        (case cache_next_frame ar label2rgb i_step d h of
           (Some e, d', h') \<Rightarrow> (Some e, d', h')
         | (None, d', h') \<Rightarrow> fill_cache ar label2rgb i_step d' h')
      else (None, d, h))"
  by pat_completeness auto

termination fill_cache
  by (relation "measure (\<lambda>(ar, l, i, d, h). nat (i + 1 - int (length (d_cache d))))")
    (auto simp: cache_next_frame_def Let_def split: if_splits sum.splits prod.splits)

text \<open>
  One call of the step function: it fills the cache up to the step, then shows the two
  panels of the frame \<open>image_cache[i_step]\<close> (Python indexing: a negative index counts
  from the end). The result is what is shown, the overlay and the filtered array.
\<close>

definition mean_filter_step ::
  "('p, 'f) arith \<Rightarrow> (int ndarray \<Rightarrow> 'p ndarray \<Rightarrow> 'o) \<Rightarrow> int \<Rightarrow> 'o demo \<Rightarrow> 'p heap
     \<Rightarrow> (error + ('o \<times> 'p ndarray)) \<times> 'o demo \<times> 'p heap" where
  "mean_filter_step ar label2rgb i_step d h =
     (case fill_cache ar label2rgb i_step d h of
        (Some e, d', h') \<Rightarrow> (Inl e, d', h')
      | (None, d', h') \<Rightarrow>
          (let n = int (length (d_cache d'));
               k = (if i_step < 0 then i_step + n else i_step)
           in if 0 \<le> k \<and> k < n
              then (Inr (fst (d_cache d' ! nat k), images h' ! snd (d_cache d' ! nat k)), d', h')
              else (Inl IndexError, d', h')))"

text \<open>A session with the slider: the step function called with one index after the
  other; an exception leaves the closure as it is at that moment.\<close>

fun run_demo ::
  "('p, 'f) arith \<Rightarrow> (int ndarray \<Rightarrow> 'p ndarray \<Rightarrow> 'o) \<Rightarrow> int list
     \<Rightarrow> 'o demo \<times> 'p heap \<Rightarrow> 'o demo \<times> 'p heap" where
  "run_demo ar label2rgb [] s = s"
| "run_demo ar label2rgb (k # ks) s =
     run_demo ar label2rgb ks (snd (mean_filter_step ar label2rgb k (fst s) (snd s)))"

text \<open>
  The value the demo computes from a window, \<open>np.sum(mean_factor * subimage)\<close>
  converted to the pixel type, the value it writes at a position, and what holds of the
  closure and the store between two calls of the step function: the generator has yielded one triple per
  cached frame, and every frame is the frame before it (the image, for the first) with
  the pixel at its position overwritten.
\<close>

definition filter_value :: "('p, 'f) arith \<Rightarrow> 'p ndarray \<Rightarrow> 'p" where
  "filter_value ar subimage = astype ar (np_sum ar (scale ar (mean_factor ar) subimage))"

definition written_value :: "('p, 'f) arith \<Rightarrow> 'p ndarray \<Rightarrow> nat \<times> nat \<Rightarrow> 'p" where
  "written_value ar img p = filter_value ar (getslice2 img (kernel_slices (shape img) 1 p))"

definition demo_inv :: "('p, 'f) arith \<Rightarrow> 'p heap \<Rightarrow> addr \<Rightarrow> 'o demo \<times> 'p heap \<Rightarrow> bool" where
  "demo_inv ar h0 a s \<longleftrightarrow>
     (case s of (d, h) \<Rightarrow>
        let img = images h0 ! a; ps = pixel_positions (shape img); n = length (d_cache d) in
          d_image d = a
        \<and> length (images h0) \<le> length (images h)
        \<and> (\<forall>j<length (images h0). images h ! j = images h0 ! j)
        \<and> n \<le> length ps
        \<and> d_gen d = \<lparr>g_image = a, g_size = 1, g_pending = drop n ps\<rparr>
        \<and> (\<forall>m<n. length (images h0) \<le> snd (d_cache d ! m)
                 \<and> snd (d_cache d ! m) < length (images h)
                 \<and> shape (images h ! snd (d_cache d ! m)) = shape img
                 \<and> setitem (if m = 0 then img else images h ! snd (d_cache d ! (m - 1)))
                      (ps ! m) (written_value ar img (ps ! m))
                    = Inr (images h ! snd (d_cache d ! m))))"


text \<open>
  A smaller float image, 3 by 3 with a single 1 at the centre, and a session on it: the
  slider is moved to 0, then to 2, then back to 1.
\<close>

definition centre_dot :: "real ndarray" where
  "centre_dot = tabulate (3, 3) (\<lambda>r c. if r = 1 \<and> c = 1 then 1 else 0)"

definition dot_heap :: "real heap" where
  "dot_heap = \<lparr>images = [centre_dot], masks = []\<rparr>"

definition dot_session :: "unit demo \<times> real heap" where
  "dot_session = run_demo exact (\<lambda>m i. ()) [0, 2] (mean_filter_demo dot_heap 0, dot_heap)"

definition dot_revisit ::
  "(error + (unit \<times> real ndarray)) \<times> unit demo \<times> real heap" where
  "dot_revisit = mean_filter_step exact (\<lambda>m i. ()) 1 (fst dot_session) (snd dot_session)"

section \<open>The side-by-side display\<close>

text \<open>
  \<^verbatim>\<open>
  def imshow_all(*images, titles=None):
      images = [img_as_float(img) for img in images]

      if titles is None:
          titles = [''] * len(images)
      vmin = min(map(np.min, images))
      vmax = max(map(np.max, images))
      ncols = len(images)
      height = 5
      width = height * len(images)
      fig, axes = plt.subplots(nrows=1, ncols=ncols,
                               figsize=(width, height))
      for ax, img, label in zip(axes.ravel(), images, titles):
          ax.imshow(img, vmin=vmin, vmax=vmax)
          ax.set_title(label)
  \<close>
  What the function does is the figure it leaves: the grid, and for each axes drawn on,
  the image, the two ends of the intensity scale and the title. The conversion
  \<open>img_as_float\<close> is a parameter. \<open>np.min\<close> and \<open>np.max\<close> raise ValueError on
  an array without cells, Python's \<open>min\<close> and \<open>max\<close> on an empty sequence.
  \<open>plt.subplots\<close> gives an array of axes, but the single axes object itself for a
  grid of one, which has no \<open>ravel\<close>. \<open>zip\<close> stops at its shortest argument.
\<close>

record panel =
  p_axis :: nat
  p_image :: "real ndarray"
  p_vmin :: real
  p_vmax :: real
  p_title :: string

record figure =
  f_nrows :: nat
  f_ncols :: nat
  f_figsize :: "nat \<times> nat"
  f_panels :: "panel list"

definition np_min :: "real ndarray \<Rightarrow> error + real" where
  "np_min a = (if concat (rows a) = [] then Inl ValueError else Inr (Min (set (concat (rows a)))))"

definition np_max :: "real ndarray \<Rightarrow> error + real" where
  "np_max a = (if concat (rows a) = [] then Inl ValueError else Inr (Max (set (concat (rows a)))))"

text \<open>\<open>min(map(f, xs))\<close> and \<open>max(map(f, xs))\<close>: the first raise of \<open>f\<close> ends the
  call.\<close>

fun map_raising :: "('a \<Rightarrow> error + 'b) \<Rightarrow> 'a list \<Rightarrow> error + 'b list" where
  "map_raising f [] = Inr []"
| "map_raising f (x # xs) =
     (case f x of
        Inl e \<Rightarrow> Inl e
      | Inr y \<Rightarrow> (case map_raising f xs of Inl e \<Rightarrow> Inl e | Inr ys \<Rightarrow> Inr (y # ys)))"

definition min_map :: "('a \<Rightarrow> error + real) \<Rightarrow> 'a list \<Rightarrow> error + real" where
  "min_map f xs =
     (case map_raising f xs of
        Inl e \<Rightarrow> Inl e
      | Inr ys \<Rightarrow> if ys = [] then Inl ValueError else Inr (Min (set ys)))"

definition max_map :: "('a \<Rightarrow> error + real) \<Rightarrow> 'a list \<Rightarrow> error + real" where
  "max_map f xs =
     (case map_raising f xs of
        Inl e \<Rightarrow> Inl e
      | Inr ys \<Rightarrow> if ys = [] then Inl ValueError else Inr (Max (set ys)))"

definition subplots_ravel :: "nat \<Rightarrow> nat \<Rightarrow> error + nat list" where
  "subplots_ravel nrows ncols =
     (if nrows * ncols = 1 then Inl AttributeError else Inr [0..<nrows * ncols])"

definition imshow_all ::
  "('i \<Rightarrow> real ndarray) \<Rightarrow> 'i list \<Rightarrow> string list option \<Rightarrow> error + figure" where
  "imshow_all img_as_float imgs titles =
     (let images = map img_as_float imgs;
          labels = (case titles of None \<Rightarrow> replicate (length images) [] | Some ts \<Rightarrow> ts)
      in case min_map np_min images of
           Inl e \<Rightarrow> Inl e
         | Inr vmin \<Rightarrow>
            (case max_map np_max images of
               Inl e \<Rightarrow> Inl e
             | Inr vmax \<Rightarrow>
                (let ncols = length images;
                     height = 5;
                     width = height * length images
                 in case subplots_ravel 1 ncols of
                      Inl e \<Rightarrow> Inl e
                    | Inr axes \<Rightarrow>
                        Inr \<lparr>f_nrows = 1, f_ncols = ncols, f_figsize = (width, height),
                             f_panels = map (\<lambda>(ax, img, label).
                                 \<lparr>p_axis = ax, p_image = img, p_vmin = vmin, p_vmax = vmax,
                                  p_title = label\<rparr>)
                               (zip axes (zip images labels))\<rparr>)))"

section \<open>Iteration order\<close>

lemma yield_each_total:
  "(\<And>x. x \<in> set xs \<Longrightarrow> body x = Inr (f x)) \<Longrightarrow> yield_each body xs = (map f xs, None)"
  by (induction xs) auto

lemma row_major_concat:
  "concat (map (\<lambda>i. map (\<lambda>j. (i, j)) [0..<w]) [0..<h]) = map (\<lambda>n. (n div w, n mod w)) [0..<h * w]"
proof (induction h)
  case 0
  then show ?case by simp
next
  case (Suc h)
  have "map (\<lambda>n. (n div w, n mod w)) [h * w..<h * w + w] = map (\<lambda>j. (h, j)) [0..<w]"
  proof (rule nth_equalityI)
    show "length (map (\<lambda>n. (n div w, n mod w)) [h * w..<h * w + w]) = length (map (\<lambda>j. (h, j)) [0..<w])"
      by simp
  next
    fix i assume "i < length (map (\<lambda>n. (n div w, n mod w)) [h * w..<h * w + w])"
    then have i: "i < w" by simp
    then have "(h * w + i) div w = h" "(h * w + i) mod w = i" by simp_all
    with i show "map (\<lambda>n. (n div w, n mod w)) [h * w..<h * w + w] ! i = map (\<lambda>j. (h, j)) [0..<w] ! i"
      by simp
  qed
  moreover have "[0..<Suc h * w] = [0..<h * w] @ [h * w..<h * w + w]"
    using upt_add_eq_append [of 0 "h * w" w] by (simp add: add.commute)
  ultimately show ?case using Suc by simp
qed

lemma pixel_positions_row_major:
  "pixel_positions (h, w) = map (\<lambda>n. (n div w, n mod w)) [0..<h * w]"
  by (simp add: pixel_positions_def row_major_concat)

lemma set_pixel_positions:
  "set (pixel_positions (h, w)) = {0..<h} \<times> {0..<w}"
  by (auto simp: pixel_positions_def)

lemma distinct_pixel_positions: "distinct (pixel_positions (h, w))"
proof -
  have "inj_on (\<lambda>n. (n div w, n mod w)) (set [0..<h * w])"
  proof (rule inj_onI)
    fix x y :: nat assume "(x div w, x mod w) = (y div w, y mod w)"
    then have e: "x div w = y div w" "x mod w = y mod w" by simp_all
    have "x = x div w * w + x mod w" by simp
    also have "\<dots> = y div w * w + y mod w" by (simp only: e)
    also have "\<dots> = y" by simp
    finally show "x = y" .
  qed
  then have "distinct (map (\<lambda>n. (n div w, n mod w)) [0..<h * w])"
    by (simp only: distinct_map distinct_upt simp_thms)
  then show ?thesis by (simp only: pixel_positions_row_major)
qed

lemma length_pixel_positions: "length (pixel_positions (h, w)) = h * w"
  by (simp add: pixel_positions_row_major)

lemma iter_pixels_total:
  "iter_pixels img =
     (map (\<lambda>p. (p, rows img ! fst p ! snd p)) (pixel_positions (shape img)), None)"
  unfolding iter_pixels_def
  by (rule yield_each_total) (cases "shape img", auto simp: getitem_def set_pixel_positions)

section \<open>Reflection at the border\<close>

lemma reflect_lt: "0 < n \<Longrightarrow> reflect n x < n"
  unfolding reflect_def Let_def
  using pos_mod_bound [of "2 * int n" x] pos_mod_sign [of "2 * int n" x] by auto

lemma reflect_id: "0 \<le> x \<Longrightarrow> x < int n \<Longrightarrow> reflect n x = nat x"
  unfolding reflect_def Let_def by simp

lemma reflect_contract:
  assumes "r < n"
  shows "\<bar>int (reflect n x) - int r\<bar> \<le> \<bar>x - int r\<bar>"
proof -
  define t where "t = 2 * int n * (x div (2 * int n))"
  define m where "m = x mod (2 * int n)"
  have x: "x = t + m" unfolding t_def m_def by simp
  have m: "0 \<le> m" "m < 2 * int n" unfolding m_def using assms by simp_all
  have t: "t = 0 \<or> 2 * int n \<le> t \<or> t \<le> - 2 * int n"
  proof -
    consider "x div (2 * int n) = 0" | "1 \<le> x div (2 * int n)" | "x div (2 * int n) \<le> - 1"
      by linarith
    then show ?thesis
    proof cases
      case 1
      then show ?thesis by (simp add: t_def)
    next
      case 2
      then show ?thesis
        using mult_left_mono [of 1 "x div (2 * int n)" "2 * int n"] by (simp add: t_def)
    next
      case 3
      then show ?thesis
        using mult_left_mono [of "x div (2 * int n)" "- 1" "2 * int n"] by (simp add: t_def)
    qed
  qed
  have refl: "int (reflect n x) = (if m < int n then m else 2 * int n - 1 - m)"
    unfolding reflect_def Let_def m_def [symmetric] using m by simp
  have r: "int r < int n" using assms by simp
  show ?thesis
  proof (cases "m < int n")
    case True
    with refl have "int (reflect n x) = m" by simp
    with x m t r True show ?thesis by linarith
  next
    case False
    with refl have "int (reflect n x) = 2 * int n - 1 - m" by simp
    with x m t r False show ?thesis by linarith
  qed
qed

lemma reflect_window:
  assumes "r < n" "i < n" "0 \<le> sz"
  shows "(\<exists>d\<in>set [- sz .. sz]. reflect n (int r + d) = i) \<longleftrightarrow> \<bar>int r - int i\<bar> \<le> sz"
proof
  assume "\<exists>d\<in>set [- sz .. sz]. reflect n (int r + d) = i"
  then obtain d where d: "- sz \<le> d" "d \<le> sz" "reflect n (int r + d) = i" by auto
  from reflect_contract [OF assms(1), of "int r + d"] d show "\<bar>int r - int i\<bar> \<le> sz"
    by linarith
next
  assume a: "\<bar>int r - int i\<bar> \<le> sz"
  have "reflect n (int r + (int i - int r)) = i"
    using reflect_id [of "int i" n] assms by simp
  moreover have "int i - int r \<in> set [- sz .. sz]" using a by auto
  ultimately show "\<exists>d\<in>set [- sz .. sz]. reflect n (int r + d) = i" by blast
qed

lemma Max_indicator:
  assumes "xs \<noteq> []"
  shows "Max (set (map (\<lambda>d. if P d then 1 else 0) xs)) = (if \<exists>d\<in>set xs. P d then 1 else (0::int))"
proof (cases "\<exists>d\<in>set xs. P d")
  case True
  then have "(1::int) \<in> set (map (\<lambda>d. if P d then 1 else 0) xs)" by force
  moreover have "\<forall>y\<in>set (map (\<lambda>d. if P d then 1 else 0) xs). y \<le> (1::int)" by auto
  ultimately have "Max (set (map (\<lambda>d. if P d then 1 else 0) xs)) = (1::int)"
    by (intro Max_eqI) auto
  with True show ?thesis by simp
next
  case False
  then have "set (map (\<lambda>d. if P d then 1 else 0) xs) = {0::int}" using assms by (cases xs) auto
  with False show ?thesis by simp
qed

section \<open>The mask is the clamped square\<close>

lemma tabulate_cong:
  "(\<And>r c. r < fst s \<Longrightarrow> c < snd s \<Longrightarrow> f r c = g r c) \<Longrightarrow> tabulate s f = tabulate s g"
  by (simp add: tabulate_def)

lemma np_zeros_tabulate: "np_zeros s = tabulate s (\<lambda>r c. 0)"
  by (simp add: np_zeros_def tabulate_def map_replicate_trivial)

lemma list_update_tabulated:
  "i < n \<Longrightarrow> (map f [0..<n])[i := x] = map (\<lambda>k. if k = i then x else f k) [0..<n]"
  by (rule nth_equalityI) (auto simp: nth_list_update)

lemma setitem_tabulate:
  assumes "fst p < fst s" "snd p < snd s"
  shows "setitem (tabulate s f) p v = Inr (tabulate s (\<lambda>r c. if (r, c) = p then v else f r c))"
proof -
  have "(map (\<lambda>c. f (fst p) c) [0..<snd s])[snd p := v]
          = map (\<lambda>c. if c = snd p then v else f (fst p) c) [0..<snd s]"
    using assms(2) by (rule list_update_tabulated)
  moreover have "(map (\<lambda>r. map (\<lambda>c. f r c) [0..<snd s]) [0..<fst s])[fst p := xs]
          = map (\<lambda>r. if r = fst p then xs else map (\<lambda>c. f r c) [0..<snd s]) [0..<fst s]" for xs
    using assms(1) by (rule list_update_tabulated)
  ultimately have "(map (\<lambda>r. map (\<lambda>c. f r c) [0..<snd s]) [0..<fst s])
            [fst p := (map (\<lambda>c. f (fst p) c) [0..<snd s])[snd p := v]]
          = map (\<lambda>r. map (\<lambda>c. if (r, c) = p then v else f r c) [0..<snd s]) [0..<fst s]"
    by (cases p) (simp cong: map_cong)
  with assms show ?thesis
    by (simp add: setitem_def tabulate_def)
qed

lemma maximum_filter1d_tabulate:
  assumes "0 < fst s" "0 < snd s"
  shows "maximum_filter1d (tabulate s f) sz axis origin =
     tabulate s (\<lambda>r c. Max (set (map (\<lambda>d.
         if axis = 0 then f (reflect (fst s) (int r + d)) c
         else f r (reflect (snd s) (int c + d)))
       [- (sz div 2 + origin) .. sz - sz div 2 - 1 - origin])))"
  unfolding maximum_filter1d_def tabulate_def Let_def
  using assms by (auto simp: reflect_lt cong: map_cong)

lemma upto_nonempty: "0 \<le> sz \<Longrightarrow> [- sz .. sz] \<noteq> []"
  by (simp add: upto.simps)

lemma dilate_axis0:
  assumes "fst p < fst s" "snd p < snd s" "0 \<le> sz"
  shows "maximum_filter1d (tabulate s (\<lambda>r c. if (r, c) = p then 1 else 0)) (2 * sz + 1) 0 0 =
         tabulate s (\<lambda>r c. if \<bar>int r - int (fst p)\<bar> \<le> sz \<and> c = snd p then 1 else 0)"
proof -
  have w: "(2 * sz + 1) div 2 = sz" by simp
  have pos: "0 < fst s" "0 < snd s" using assms by auto
  show ?thesis
    unfolding maximum_filter1d_tabulate [OF pos]
  proof (rule tabulate_cong)
    fix r c assume rc: "r < fst s" "c < snd s"
    have "Max (set (map (\<lambda>d. if reflect (fst s) (int r + d) = fst p \<and> c = snd p then 1 else 0)
                 [- sz .. sz]))
          = (if \<exists>d\<in>set [- sz .. sz]. reflect (fst s) (int r + d) = fst p \<and> c = snd p
             then 1 else (0::int))"
      by (rule Max_indicator) (rule upto_nonempty [OF assms(3)])
    also have "\<dots> = (if \<bar>int r - int (fst p)\<bar> \<le> sz \<and> c = snd p then 1 else 0)"
      using reflect_window [OF rc(1) assms(1) assms(3)] by auto
    finally show "Max (set (map (\<lambda>d. if 0 = (0::nat)
                     then if (reflect (fst s) (int r + d), c) = p then 1 else 0
                     else if (r, reflect (snd s) (int c + d)) = p then 1 else 0)
                 [- ((2 * sz + 1) div 2 + 0) .. 2 * sz + 1 - (2 * sz + 1) div 2 - 1 - 0]))
          = (if \<bar>int r - int (fst p)\<bar> \<le> sz \<and> c = snd p then 1 else (0::int))"
      by (cases p) (simp add: w)
  qed
qed

lemma dilate_axis1:
  assumes "fst p < fst s" "snd p < snd s" "0 \<le> sz"
  shows "maximum_filter1d
           (tabulate s (\<lambda>r c. if \<bar>int r - int (fst p)\<bar> \<le> sz \<and> c = snd p then 1 else 0))
           (2 * sz + 1) 1 0 =
         tabulate s (\<lambda>r c. if \<bar>int r - int (fst p)\<bar> \<le> sz \<and> \<bar>int c - int (snd p)\<bar> \<le> sz
                            then 1 else 0)"
proof -
  have w: "(2 * sz + 1) div 2 = sz" by simp
  have pos: "0 < fst s" "0 < snd s" using assms by auto
  show ?thesis
    unfolding maximum_filter1d_tabulate [OF pos]
  proof (rule tabulate_cong)
    fix r c assume rc: "r < fst s" "c < snd s"
    have "Max (set (map (\<lambda>d. if \<bar>int r - int (fst p)\<bar> \<le> sz \<and> reflect (snd s) (int c + d) = snd p
                             then 1 else 0) [- sz .. sz]))
          = (if \<exists>d\<in>set [- sz .. sz]. \<bar>int r - int (fst p)\<bar> \<le> sz \<and> reflect (snd s) (int c + d) = snd p
             then 1 else (0::int))"
      by (rule Max_indicator) (rule upto_nonempty [OF assms(3)])
    also have "\<dots> = (if \<bar>int r - int (fst p)\<bar> \<le> sz \<and> \<bar>int c - int (snd p)\<bar> \<le> sz then 1 else 0)"
      using reflect_window [OF rc(2) assms(2) assms(3)] by auto
    finally show "Max (set (map (\<lambda>d. if (1::nat) = 0
                     then if \<bar>int (reflect (fst s) (int r + d)) - int (fst p)\<bar> \<le> sz \<and> c = snd p
                          then 1 else 0
                     else if \<bar>int r - int (fst p)\<bar> \<le> sz \<and> reflect (snd s) (int c + d) = snd p
                          then 1 else 0)
                 [- ((2 * sz + 1) div 2 + 0) .. 2 * sz + 1 - (2 * sz + 1) div 2 - 1 - 0]))
          = (if \<bar>int r - int (fst p)\<bar> \<le> sz \<and> \<bar>int c - int (snd p)\<bar> \<le> sz then 1 else (0::int))"
      by (simp add: w)
  qed
qed

lemma grey_dilation_single:
  assumes "fst p < fst s" "snd p < snd s" "0 \<le> sz" and fits: "2 * sz + 1 \<le> ssize_max"
  shows "grey_dilation (tabulate s (\<lambda>r c. if (r, c) = p then 1 else 0)) (2 * sz + 1) =
         Inr (tabulate s (\<lambda>r c. if \<bar>int r - int (fst p)\<bar> \<le> sz \<and> \<bar>int c - int (snd p)\<bar> \<le> sz
                            then 1 else 0))"
proof (cases "sz = 0")
  case True
  have "tabulate s (\<lambda>r c. if (r, c) = p then 1 else (0::int)) =
        tabulate s (\<lambda>r c. if \<bar>int r - int (fst p)\<bar> \<le> 0 \<and> \<bar>int c - int (snd p)\<bar> \<le> 0 then 1 else 0)"
    by (rule tabulate_cong) (cases p, auto)
  with True show ?thesis by (simp add: grey_dilation_def)
next
  case False
  with assms have "1 < 2 * sz + 1" "odd (2 * sz + 1)" by simp_all
  with fits have "grey_dilation (tabulate s (\<lambda>r c. if (r, c) = p then 1 else 0)) (2 * sz + 1) =
        Inr (maximum_filter1d (maximum_filter1d (tabulate s (\<lambda>r c. if (r, c) = p then 1 else 0))
           (2 * sz + 1) 0 0) (2 * sz + 1) 1 0)"
    by (simp add: grey_dilation_def)
  then show ?thesis
    by (simp only: dilate_axis0 [OF assms(1,2,3)] dilate_axis1 [OF assms(1,2,3)])
qed

section \<open>The window is the clamped slice\<close>

lemma in_window_abs:
  "i < n \<Longrightarrow> r < n \<Longrightarrow> 0 \<le> sz \<Longrightarrow> in_window sz n i r \<longleftrightarrow> \<bar>int r - int i\<bar> \<le> sz"
  unfolding in_window_def window_bounds_def by auto

lemma clamped_mask_tabulate:
  "clamped_mask s sz p = tabulate s (\<lambda>r c. if (r, c) = p then 2
       else if in_window sz (fst s) (fst p) r \<and> in_window sz (snd s) (snd p) c then 1 else 0)"
  by (simp add: clamped_mask_def tabulate_def)

lemma mask_construction:
  assumes "fst p < fst s" "snd p < snd s" "0 \<le> sz" "2 * sz + 1 \<le> ssize_max"
  shows "setitem (np_zeros s) p 1 = Inr (tabulate s (\<lambda>r c. if (r, c) = p then 1 else 0))"
    and "grey_dilation (tabulate s (\<lambda>r c. if (r, c) = p then 1 else 0)) (2 * sz + 1)
           = Inr (tabulate s (\<lambda>r c. if \<bar>int r - int (fst p)\<bar> \<le> sz \<and> \<bar>int c - int (snd p)\<bar> \<le> sz
                            then 1 else 0))"
    and "setitem (tabulate s (\<lambda>r c. if \<bar>int r - int (fst p)\<bar> \<le> sz \<and> \<bar>int c - int (snd p)\<bar> \<le> sz
                            then 1 else 0)) p 2
           = Inr (clamped_mask s sz p)"
proof -
  show "setitem (np_zeros s) p 1 = Inr (tabulate s (\<lambda>r c. if (r, c) = p then 1 else 0))"
    by (simp only: np_zeros_tabulate setitem_tabulate [OF assms(1,2)])
  have "tabulate s (\<lambda>r c. if (r, c) = p then 2
          else if \<bar>int r - int (fst p)\<bar> \<le> sz \<and> \<bar>int c - int (snd p)\<bar> \<le> sz then 1 else (0::int))
        = clamped_mask s sz p"
    unfolding clamped_mask_tabulate
    by (rule tabulate_cong) (simp add: in_window_abs assms)
  then show "setitem (tabulate s (\<lambda>r c. if \<bar>int r - int (fst p)\<bar> \<le> sz \<and> \<bar>int c - int (snd p)\<bar> \<le> sz
                            then 1 else 0)) p 2
           = Inr (clamped_mask s sz p)"
    by (simp only: setitem_tabulate [OF assms(1,2)])
  show "grey_dilation (tabulate s (\<lambda>r c. if (r, c) = p then 1 else 0)) (2 * sz + 1)
           = Inr (tabulate s (\<lambda>r c. if \<bar>int r - int (fst p)\<bar> \<le> sz \<and> \<bar>int c - int (snd p)\<bar> \<le> sz
                            then 1 else 0))"
    by (rule grey_dilation_single [OF assms])
qed

lemma take_drop_nth:
  "b \<le> length xs \<Longrightarrow> take (b - a) (drop a xs) = map ((!) xs) [a..<b]"
  by (rule nth_equalityI) auto

lemma slice_indices_bounded:
  assumes "i < n" "0 \<le> sz"
  shows "slice_indices (max (int i - sz) 0, min (int i + sz + 1) (int n)) n = window_bounds sz n i"
  using assms unfolding slice_indices_def window_bounds_def Let_def by auto

lemma window_bounds_le: "snd (window_bounds sz n i) \<le> n"
  unfolding window_bounds_def by auto

lemma getslice_bounded:
  assumes "i < n" "0 \<le> sz" "length xs = n"
  shows "getslice xs (max (int i - sz) 0, min (int i + sz + 1) (int n))
         = map ((!) xs) [fst (window_bounds sz n i)..<snd (window_bounds sz n i)]"
  unfolding getslice_def assms(3) slice_indices_bounded [OF assms(1,2)]
  using window_bounds_le [of sz n i] assms(3) by (simp add: case_prod_beta take_drop_nth)

lemma window_construction:
  assumes "wf_array a" "fst p < fst (shape a)" "snd p < snd (shape a)" "0 \<le> sz"
  shows "getslice2 a (bounded_slice (int (fst p), int (snd p))
                        (int (fst (shape a)), int (snd (shape a))) sz 0)
         = clamped_window a sz p"
proof -
  have len: "length (rows a) = fst (shape a)"
    and row: "\<And>r. r < fst (shape a) \<Longrightarrow> length (rows a ! r) = snd (shape a)"
    using assms(1) by (auto simp: wf_array_def list_all_length)
  have "map (\<lambda>r. getslice r (max (int (snd p) - sz) 0, min (int (snd p) + sz + 1) (int (snd (shape a)))))
          (map ((!) (rows a)) [fst (window_bounds sz (fst (shape a)) (fst p))..<
                               snd (window_bounds sz (fst (shape a)) (fst p))])
        = map (\<lambda>r. map (\<lambda>c. rows a ! r ! c)
                 [fst (window_bounds sz (snd (shape a)) (snd p))..<
                  snd (window_bounds sz (snd (shape a)) (snd p))])
            [fst (window_bounds sz (fst (shape a)) (fst p))..<
             snd (window_bounds sz (fst (shape a)) (fst p))]"
  proof (simp only: map_map, rule map_cong [OF refl])
    fix r assume "r \<in> set [fst (window_bounds sz (fst (shape a)) (fst p))..<
                            snd (window_bounds sz (fst (shape a)) (fst p))]"
    then have "r < fst (shape a)"
      using window_bounds_le [of sz "fst (shape a)" "fst p"] by simp
    then have "length (rows a ! r) = snd (shape a)" by (rule row)
    from getslice_bounded [OF assms(3,4) this]
    show "((\<lambda>r. getslice r (max (int (snd p) - sz) 0,
                 min (int (snd p) + sz + 1) (int (snd (shape a))))) \<circ> (!) (rows a)) r
          = map (\<lambda>c. rows a ! r ! c)
              [fst (window_bounds sz (snd (shape a)) (snd p))..<
               snd (window_bounds sz (snd (shape a)) (snd p))]"
      by simp
  qed
  then show ?thesis
    unfolding getslice2_def bounded_slice_def clamped_window_def restrict_array_def Let_def
    by (simp add: slice_indices_bounded assms case_prod_beta getslice_bounded [OF assms(2,4) len])
qed

lemma kernel_step_eq:
  assumes "wf_array a" "fst p < fst (shape a)" "snd p < snd (shape a)" "0 \<le> sz"
    "2 * sz + 1 \<le> ssize_max"
  shows "kernel_step a sz (p, px) = Inr (p, clamped_mask (shape a) sz p, clamped_window a sz p)"
  unfolding kernel_step_def Let_def
  by (simp add: mask_construction [OF assms(2,3,4,5)] window_construction [OF assms(1,2,3,4)])

lemma iter_kernel_eq:
  assumes "wf_array a" "0 \<le> sz" "2 * sz + 1 \<le> ssize_max"
  shows "iter_kernel a sz =
     (map (\<lambda>p. (p, clamped_mask (shape a) sz p, clamped_window a sz p))
        (pixel_positions (shape a)), None)"
proof -
  have "yield_each (kernel_step a sz)
          (map (\<lambda>p. (p, rows a ! fst p ! snd p)) (pixel_positions (shape a)))
        = (map (\<lambda>x. (fst x, clamped_mask (shape a) sz (fst x), clamped_window a sz (fst x)))
            (map (\<lambda>p. (p, rows a ! fst p ! snd p)) (pixel_positions (shape a))), None)"
  proof (rule yield_each_total)
    fix x assume "x \<in> set (map (\<lambda>p. (p, rows a ! fst p ! snd p)) (pixel_positions (shape a)))"
    then have "fst x \<in> set (pixel_positions (fst (shape a), snd (shape a)))" by auto
    then have "fst (fst x) < fst (shape a)" "snd (fst x) < snd (shape a)"
      by (auto simp only: set_pixel_positions mem_Times_iff atLeastLessThan_iff)
    from kernel_step_eq [OF assms(1) this assms(2,3), of "snd x"]
    show "kernel_step a sz x
          = Inr (fst x, clamped_mask (shape a) sz (fst x), clamped_window a sz (fst x))"
      by simp
  qed
  then show ?thesis
    by (simp add: iter_kernel_def iter_pixels_total comp_def)
qed

section \<open>The yielded triples\<close>

lemma nth_pixel_positions:
  "n < h * w \<Longrightarrow> pixel_positions (h, w) ! n = (n div w, n mod w)"
  by (simp add: pixel_positions_row_major)

lemma nth_pixel_positions_bounds:
  fixes n h w :: nat
  assumes "n < h * w"
  shows "n div w < h" "n mod w < w"
proof -
  have w: "0 < w" using assms by (cases w) auto
  then show "n mod w < w" by simp
  show "n div w < h" using assms w by (simp add: less_mult_imp_div_less)
qed

lemma width_fits [simp]: "1 \<le> ssize_max" "3 \<le> ssize_max"
  by (simp_all add: ssize_max_def)

lemma nth_iter_kernel:
  assumes "wf_array a" "shape a = (h, w)" "0 \<le> sz" "2 * sz + 1 \<le> ssize_max" "n < h * w"
  shows "fst (iter_kernel a sz) ! n =
     ((n div w, n mod w), clamped_mask (h, w) sz (n div w, n mod w),
      clamped_window a sz (n div w, n mod w))"
  using assms by (simp add: iter_kernel_eq length_pixel_positions nth_pixel_positions)

lemma getitem_tabulate:
  "r < fst s \<Longrightarrow> c < snd s \<Longrightarrow> getitem (tabulate s f) (r, c) = Inr (f r c)"
  by (simp add: getitem_def tabulate_def)

lemma wf_tabulate: "wf_array (tabulate s f)"
  by (simp add: wf_array_def tabulate_def list_all_iff)

lemma in_window_int:
  "r < n \<Longrightarrow> 0 \<le> sz \<Longrightarrow> in_window sz n i r \<longleftrightarrow>
     max (int i - sz) 0 \<le> int r \<and> int r < min (int i + sz + 1) (int n)"
  unfolding in_window_def window_bounds_def by auto

lemma wf_restrict_array: "wf_array (restrict_array a rb cb)"
  by (simp add: wf_array_def restrict_array_def list_all_iff)

lemma getitem_restrict_array:
  assumes "r < snd rb - fst rb" "c < snd cb - fst cb" "snd rb \<le> fst (shape a)" "snd cb \<le> snd (shape a)"
  shows "getitem (restrict_array a rb cb) (r, c) = getitem a (fst rb + r, fst cb + c)"
proof -
  have "fst rb + r < fst (shape a)" "fst cb + c < snd (shape a)" using assms by linarith+
  then show ?thesis using assms by (simp add: getitem_def restrict_array_def)
qed

lemma bright_square_wf: "wf_array bright_square" "shape bright_square = (7, 7)"
  by (simp_all add: bright_square_def wf_tabulate) (simp add: tabulate_def)

lemma concat_rows_tabulate:
  "concat (rows (tabulate s f)) = map (\<lambda>q. f (fst q) (snd q)) (pixel_positions s)"
  by (simp add: tabulate_def pixel_positions_def map_concat comp_def)

lemma filter_single:
  "distinct xs \<Longrightarrow> x \<in> set xs \<Longrightarrow> length (filter (\<lambda>q. q = x) xs) = 1"
proof (induction xs)
  case Nil
  then show ?case by simp
next
  case (Cons a xs)
  show ?case
  proof (cases "a = x")
    case True
    with Cons.prems have "x \<notin> set xs" by simp
    then have "filter (\<lambda>q. q = x) xs = []" by (auto simp: filter_empty_conv)
    with True show ?thesis by simp
  next
    case False
    with Cons show ?thesis by simp
  qed
qed

lemma single_centre_counts:
  assumes "fst p < fst s" "snd p < snd s"
  shows "length (filter (\<lambda>v. v = 2) (concat (rows (tabulate s (\<lambda>r c. if (r, c) = p then 2 else (0::int)))))) = 1"
    and "1 \<notin> set (concat (rows (tabulate s (\<lambda>r c. if (r, c) = p then 2 else (0::int)))))"
proof -
  have "p \<in> set (pixel_positions (fst s, snd s))"
    using assms unfolding set_pixel_positions by (cases p) simp
  then have "length (filter (\<lambda>q. q = p) (pixel_positions s)) = 1"
    using distinct_pixel_positions [of "fst s" "snd s"] by (simp add: filter_single)
  moreover have "filter ((\<lambda>v. v = 2) \<circ> (\<lambda>q. if (fst q, snd q) = p then 2 else (0::int))) (pixel_positions s)
        = filter (\<lambda>q. q = p) (pixel_positions s)"
    by (rule filter_cong) auto
  ultimately show "length (filter (\<lambda>v. v = 2)
      (concat (rows (tabulate s (\<lambda>r c. if (r, c) = p then 2 else (0::int)))))) = 1"
    by (simp add: concat_rows_tabulate filter_map)
  show "1 \<notin> set (concat (rows (tabulate s (\<lambda>r c. if (r, c) = p then 2 else (0::int)))))"
    by (auto simp: concat_rows_tabulate)
qed

lemma clamped_mask_zero:
  assumes "fst p < fst s" "snd p < snd s"
  shows "clamped_mask s 0 p = tabulate s (\<lambda>r c. if (r, c) = p then 2 else 0)"
  unfolding clamped_mask_tabulate
  by (rule tabulate_cong) (cases p, insert assms, auto simp: in_window_abs)

lemma clamped_window_zero:
  assumes "fst p < fst (shape a)" "snd p < snd (shape a)"
  shows "clamped_window a 0 p = \<lparr>shape = (1, 1), rows = [[rows a ! fst p ! snd p]]\<rparr>"
proof -
  have "window_bounds 0 (fst (shape a)) (fst p) = (fst p, Suc (fst p))"
       "window_bounds 0 (snd (shape a)) (snd p) = (snd p, Suc (snd p))"
    using assms by (auto simp: window_bounds_def)
  then show ?thesis by (simp add: clamped_window_def restrict_array_def)
qed

lemma shape_maximum_filter1d: "shape (maximum_filter1d a sz axis origin) = shape a"
  by (simp add: maximum_filter1d_def Let_def)

lemma grey_dilation_fits: "sz \<le> ssize_max \<Longrightarrow> grey_dilation a sz = Inr (dilated a sz)"
  by (simp add: dilated_def grey_dilation_def Let_def)

lemma grey_dilation_overflow: "ssize_max < sz \<Longrightarrow> grey_dilation a sz = Inl OverflowError"
  by (simp add: grey_dilation_def Let_def ssize_max_def)

lemma shape_dilated: "shape (dilated a sz) = shape a"
  by (simp add: dilated_def grey_dilation_def Let_def shape_maximum_filter1d)

lemma kernel_step_total:
  assumes "fst (fst x) < fst (shape a)" "snd (fst x) < snd (shape a)" "2 * sz + 1 \<le> ssize_max"
  shows "\<exists>y. kernel_step a sz x = Inr y \<and> fst y = fst x"
  using assms
  by (simp add: kernel_step_def Let_def setitem_def np_zeros_def shape_dilated
      grey_dilation_fits)

lemma kernel_step_overflow:
  assumes "fst (fst x) < fst (shape a)" "snd (fst x) < snd (shape a)" "ssize_max < 2 * sz + 1"
  shows "kernel_step a sz x = Inl OverflowError"
  using assms
  by (simp add: kernel_step_def Let_def setitem_def np_zeros_def grey_dilation_overflow)

lemma iter_kernel_raises_overflow:
  assumes "ssize_max < 2 * sz + 1"
  shows "iter_kernel a sz =
     ([], if pixel_positions (shape a) = [] then None else Some OverflowError)"
proof (cases "pixel_positions (shape a)")
  case Nil
  then show ?thesis by (simp add: iter_kernel_def iter_pixels_total)
next
  case (Cons p ps)
  then have "p \<in> set (pixel_positions (fst (shape a), snd (shape a)))" by simp
  then have "fst p < fst (shape a)" "snd p < snd (shape a)"
    by (auto simp only: set_pixel_positions mem_Times_iff atLeastLessThan_iff)
  then have "kernel_step a sz (p, rows a ! fst p ! snd p) = Inl OverflowError"
    using assms by (simp add: kernel_step_overflow)
  with Cons show ?thesis by (simp add: iter_kernel_def iter_pixels_total)
qed

lemma yield_each_positions:
  "(\<And>x. x \<in> set xs \<Longrightarrow> \<exists>y. body x = Inr y \<and> g y = f x) \<Longrightarrow>
     snd (yield_each body xs) = None \<and> map g (fst (yield_each body xs)) = map f xs"
proof (induction xs)
  case Nil
  then show ?case by simp
next
  case (Cons x xs)
  from Cons.prems [of x] obtain y where y: "body x = Inr y" "g y = f x" by auto
  from Cons.IH Cons.prems have
    "snd (yield_each body xs) = None \<and> map g (fst (yield_each body xs)) = map f xs" by simp
  with y show ?case by (simp add: case_prod_beta)
qed

section \<open>The generator on the store\<close>

declare drain_kernel.simps [simp del]

lemma next_kernel_pending:
  "next_kernel g h = (Inr y, g', h') \<Longrightarrow> length (g_pending g') < length (g_pending g)"
  by (auto simp: next_kernel_def Let_def split: list.splits sum.splits)

lemma kernel_step_value:
  assumes "fst p < fst (shape a)" "snd p < snd (shape a)" "2 * sz + 1 \<le> ssize_max"
  shows "kernel_step a sz (p, px) =
           Inr (p, kernel_mask (shape a) sz p, getslice2 a (kernel_slices (shape a) sz p))"
  using assms
  by (simp add: kernel_step_def Let_def np_zeros_tabulate setitem_tabulate kernel_mask_def
      kernel_slices_def grey_dilation_fits) (simp add: setitem_def shape_dilated tabulate_def
      grey_dilation_fits)

lemma iter_kernel_value:
  assumes "2 * sz + 1 \<le> ssize_max"
  shows "iter_kernel a sz =
     (map (\<lambda>p. (p, kernel_mask (shape a) sz p, getslice2 a (kernel_slices (shape a) sz p)))
        (pixel_positions (shape a)), None)"
proof -
  let ?pixels = "map (\<lambda>p. (p, rows a ! fst p ! snd p)) (pixel_positions (shape a))"
  have "yield_each (kernel_step a sz) ?pixels
        = (map (\<lambda>x. (fst x, kernel_mask (shape a) sz (fst x),
                      getslice2 a (kernel_slices (shape a) sz (fst x)))) ?pixels, None)"
  proof (rule yield_each_total)
    fix x assume "x \<in> set ?pixels"
    then have "fst x \<in> set (pixel_positions (fst (shape a), snd (shape a)))" by auto
    then have "fst (fst x) < fst (shape a)" "snd (fst x) < snd (shape a)"
      by (auto simp only: set_pixel_positions mem_Times_iff atLeastLessThan_iff)
    from kernel_step_value [OF this assms, of "snd x"]
    show "kernel_step a sz x = Inr (fst x, kernel_mask (shape a) sz (fst x),
                      getslice2 a (kernel_slices (shape a) sz (fst x)))"
      by simp
  qed
  then show ?thesis
    by (simp add: iter_kernel_def iter_pixels_total comp_def)
qed

lemma next_kernel_value:
  assumes "g_pending g = p # ps" "fst p < fst (shape (images h ! g_image g))"
    "snd p < snd (shape (images h ! g_image g))" "2 * g_size g + 1 \<le> ssize_max"
  shows "next_kernel g h =
     (Inr (p, Suc (length (masks h)),
           \<lparr>base = g_image g, slices = kernel_slices (shape (images h ! g_image g)) (g_size g) p\<rparr>),
      g\<lparr>g_pending := ps\<rparr>,
      h\<lparr>masks := masks h @
            [tabulate (shape (images h ! g_image g)) (\<lambda>r c. if (r, c) = p then 1 else 0),
             kernel_mask (shape (images h ! g_image g)) (g_size g) p]\<rparr>)"
proof -
  let ?s = "shape (images h ! g_image g)"
  let ?d = "dilated (tabulate ?s (\<lambda>r c. if (r, c) = p then 1 else 0)) (2 * g_size g + 1)"
  have 1: "setitem (np_zeros ?s) p 1 = Inr (tabulate ?s (\<lambda>r c. if (r, c) = p then 1 else 0))"
    using assms(2,3) by (simp add: np_zeros_tabulate setitem_tabulate)
  have 3: "grey_dilation (tabulate ?s (\<lambda>r c. if (r, c) = p then 1 else 0)) (2 * g_size g + 1)
      = Inr ?d"
    using assms(4) by (rule grey_dilation_fits)
  have 2: "setitem ?d p 2 = Inr (kernel_mask ?s (g_size g) p)"
    using assms(2,3) by (simp add: setitem_def shape_dilated kernel_mask_def Let_def tabulate_def)
  have 0: "getitem (images h ! g_image g) p = Inr (rows (images h ! g_image g) ! fst p ! snd p)"
    using assms(2,3) by (simp add: getitem_def)
  show ?thesis
    unfolding next_kernel_def assms(1) list.case Let_def
    by (simp add: 0 1 2 3 nth_append kernel_slices_def list_update_append)
qed

lemma next_kernel_overflow:
  assumes "g_pending g = p # ps" "fst p < fst (shape (images h ! g_image g))"
    "snd p < snd (shape (images h ! g_image g))" "ssize_max < 2 * g_size g + 1"
  shows "next_kernel g h =
     (Inl OverflowError, g\<lparr>g_pending := []\<rparr>,
      h\<lparr>masks := masks h @
            [tabulate (shape (images h ! g_image g)) (\<lambda>r c. if (r, c) = p then 1 else 0)]\<rparr>)"
proof -
  let ?s = "shape (images h ! g_image g)"
  have 1: "setitem (np_zeros ?s) p 1 = Inr (tabulate ?s (\<lambda>r c. if (r, c) = p then 1 else 0))"
    using assms(2,3) by (simp add: np_zeros_tabulate setitem_tabulate)
  have 3: "grey_dilation (tabulate ?s (\<lambda>r c. if (r, c) = p then 1 else 0)) (2 * g_size g + 1)
      = Inl OverflowError"
    using assms(4) by (rule grey_dilation_overflow)
  have 0: "getitem (images h ! g_image g) p = Inr (rows (images h ! g_image g) ! fst p ! snd p)"
    using assms(2,3) by (simp add: getitem_def)
  show ?thesis
    unfolding next_kernel_def assms(1) list.case Let_def
    by (simp add: 0 1 3 nth_append)
qed

lemma drain_kernel_value:
  assumes "set (g_pending g) \<subseteq> {0..<fst (shape (images h ! g_image g))} \<times> {0..<snd (shape (images h ! g_image g))}"
    and "2 * g_size g + 1 \<le> ssize_max"
  shows "fst (drain_kernel g h) =
     (map (\<lambda>p. (p, kernel_mask (shape (images h ! g_image g)) (g_size g) p,
                 getslice2 (images h ! g_image g)
                   (kernel_slices (shape (images h ! g_image g)) (g_size g) p)))
        (g_pending g), None)"
  using assms
proof (induction "g_pending g" arbitrary: g h)
  case Nil
  then have "next_kernel g h = (Inl StopIteration, g, h)"
    by (simp add: next_kernel_def)
  with Nil(1) show ?case
    by (subst drain_kernel.simps) simp
next
  case (Cons p ps)
  let ?s = "shape (images h ! g_image g)"
  let ?g = "g\<lparr>g_pending := ps\<rparr>"
  let ?h = "h\<lparr>masks := masks h @ [tabulate ?s (\<lambda>r c. if (r, c) = p then 1 else 0),
                                     kernel_mask ?s (g_size g) p]\<rparr>"
  have pend: "g_pending g = p # ps" using Cons(2) by simp
  have p: "fst p < fst ?s" "snd p < snd ?s"
    using Cons.prems pend by auto
  have step: "next_kernel g h =
     (Inr (p, Suc (length (masks h)), \<lparr>base = g_image g, slices = kernel_slices ?s (g_size g) p\<rparr>),
      ?g, ?h)"
    by (rule next_kernel_value [OF pend p Cons.prems(2)])
  have "ps = g_pending ?g" by simp
  moreover have "set (g_pending ?g) \<subseteq>
      {0..<fst (shape (images ?h ! g_image ?g))} \<times> {0..<snd (shape (images ?h ! g_image ?g))}"
    using Cons.prems pend by auto
  moreover have "2 * g_size ?g + 1 \<le> ssize_max" using Cons.prems(2) by simp
  ultimately have ih: "fst (drain_kernel ?g ?h) =
     (map (\<lambda>p. (p, kernel_mask ?s (g_size g) p,
                 getslice2 (images h ! g_image g) (kernel_slices ?s (g_size g) p))) ps, None)"
    using Cons(1) [of ?g ?h] by simp
  show ?case
    apply (subst drain_kernel.simps)
    using ih
    apply (simp add: step pend deref_view_def nth_append case_prod_beta prod_eq_iff)
    done
qed

lemma drain_kernel_overflow:
  assumes "set (g_pending g) \<subseteq> {0..<fst (shape (images h ! g_image g))} \<times> {0..<snd (shape (images h ! g_image g))}"
    and "ssize_max < 2 * g_size g + 1"
  shows "fst (drain_kernel g h) = ([], if g_pending g = [] then None else Some OverflowError)"
proof (cases "g_pending g")
  case Nil
  then have "next_kernel g h = (Inl StopIteration, g, h)"
    by (simp add: next_kernel_def)
  with Nil show ?thesis
    by (subst drain_kernel.simps) simp
next
  case (Cons p ps)
  then have p: "fst p < fst (shape (images h ! g_image g))"
    "snd p < snd (shape (images h ! g_image g))"
    using assms(1) by auto
  show ?thesis
    by (subst drain_kernel.simps) (simp add: next_kernel_overflow [OF Cons p assms(2)] Cons)
qed

lemma drain_kernel_run:
  "fst (drain_kernel (iter_kernel_gen h a sz) h) = iter_kernel (images h ! a) sz"
proof -
  let ?g = "iter_kernel_gen h a sz"
  have sub: "set (g_pending ?g) \<subseteq>
      {0..<fst (shape (images h ! g_image ?g))} \<times> {0..<snd (shape (images h ! g_image ?g))}"
    using set_pixel_positions [of "fst (shape (images h ! a))" "snd (shape (images h ! a))"]
    by (simp add: iter_kernel_gen_def)
  show ?thesis
  proof (cases "2 * sz + 1 \<le> ssize_max")
    case True
    then have "2 * g_size ?g + 1 \<le> ssize_max" by (simp add: iter_kernel_gen_def)
    from drain_kernel_value [OF sub this] True show ?thesis
      by (simp add: iter_kernel_gen_def iter_kernel_value)
  next
    case False
    then have "ssize_max < 2 * g_size ?g + 1" by (simp add: iter_kernel_gen_def)
    from drain_kernel_overflow [OF sub this] False show ?thesis
      by (simp add: iter_kernel_gen_def iter_kernel_raises_overflow)
  qed
qed

section \<open>Callers that write into yielded masks\<close>

lemma interact_overflow:
  assumes "ssize_max < 2 * g_size g + 1"
    and "set (g_pending g) \<subseteq> {0..<fst (shape (images h ! g_image g))} \<times> {0..<snd (shape (images h ! g_image g))}"
  shows "fst (interact acts ([], g, h)) = []
       \<and> images (snd (snd (interact acts ([], g, h)))) = images h"
  using assms
proof (induction acts arbitrary: g h)
  case Nil
  then show ?case by simp
next
  case (Cons c acts)
  show ?case
  proof (cases c)
    case (Mutate k x)
    with Cons show ?thesis by simp
  next
    case Next
    show ?thesis
    proof (cases "g_pending g")
      case Nil
      then have "next_kernel g h = (Inl StopIteration, g, h)"
        by (simp add: next_kernel_def)
      with Cons Next show ?thesis by simp
    next
      case (Cons p ps)
      then have p: "fst p < fst (shape (images h ! g_image g))"
        "snd p < snd (shape (images h ! g_image g))"
        using Cons.prems(2) by auto
      let ?g = "g\<lparr>g_pending := []\<rparr>"
      let ?h = "h\<lparr>masks := masks h @
            [tabulate (shape (images h ! g_image g)) (\<lambda>r c. if (r, c) = p then 1 else 0)]\<rparr>"
      have "ssize_max < 2 * g_size ?g + 1" using Cons.prems(1) by simp
      moreover have "set (g_pending ?g) \<subseteq>
          {0..<fst (shape (images ?h ! g_image ?g))} \<times> {0..<snd (shape (images ?h ! g_image ?g))}"
        by simp
      ultimately have "fst (interact acts ([], ?g, ?h)) = []
          \<and> images (snd (snd (interact acts ([], ?g, ?h)))) = images ?h"
        by (rule Cons.IH)
      then show ?thesis
        by (simp add: Next next_kernel_overflow [OF Cons p Cons.prems(1)])
    qed
  qed
qed

lemma session_inv_init: "session_inv h0 a sz {} ([], iter_kernel_gen h0 a sz, h0)"
  by (simp add: session_inv_def iter_kernel_gen_def)

lemma session_inv_next:
  assumes "session_inv h0 a sz K (ys, g, h)" and fits: "2 * sz + 1 \<le> ssize_max"
  shows "session_inv h0 a sz K
     (case next_kernel g h of
        (Inl e, g', h') \<Rightarrow> (ys, g', h')
      | (Inr y, g', h') \<Rightarrow> (ys @ [y], g', h'))
    \<and> length (fst (case next_kernel g h of
        (Inl e, g', h') \<Rightarrow> (ys, g', h')
      | (Inr y, g', h') \<Rightarrow> (ys @ [y], g', h')))
      = min (Suc (length ys)) (length (pixel_positions (shape (images h0 ! a))))"
proof -
  let ?sh = "shape (images h0 ! a)"
  let ?ps = "pixel_positions ?sh"
  from assms have inv:
    "images h = images h0" "g_image g = a" "g_size g = sz"
    "length ys \<le> length ?ps" "g_pending g = drop (length ys) ?ps"
    "length (masks h) = length (masks h0) + 2 * length ys"
    "\<forall>k<length ys. ys ! k =
        (?ps ! k, length (masks h0) + 2 * k + 1, \<lparr>base = a, slices = kernel_slices ?sh sz (?ps ! k)\<rparr>)"
    "\<forall>k<length ys. k \<notin> K \<longrightarrow>
        masks h ! (length (masks h0) + 2 * k + 1) = kernel_mask ?sh sz (?ps ! k)"
    by (simp_all add: session_inv_def Let_def)
  show ?thesis
  proof (cases "length ys < length ?ps")
    case False
    with inv(4,5) have "g_pending g = []" by simp
    then have "next_kernel g h = (Inl StopIteration, g, h)" by (simp add: next_kernel_def)
    with assms(1) False inv(4) show ?thesis by simp
  next
    case True
    let ?p = "?ps ! length ys"
    have pend: "g_pending g = ?p # drop (Suc (length ys)) ?ps"
      using True inv(5) by (simp add: Cons_nth_drop_Suc)
    have "?p \<in> set (pixel_positions (fst ?sh, snd ?sh))" using True by simp
    then have p: "fst ?p < fst (shape (images h ! g_image g))" "snd ?p < snd (shape (images h ! g_image g))"
      unfolding set_pixel_positions inv(1,2) by (auto simp: mem_Times_iff)
    have "2 * g_size g + 1 \<le> ssize_max" using fits inv(3) by simp
    note step = next_kernel_value [OF pend p this, unfolded inv(1,2,3)]
    show ?thesis
      unfolding step prod.case sum.case session_inv_def Let_def
      using inv True by (auto simp: nth_append less_Suc_eq)
  qed
qed

lemma session_inv_mutate:
  assumes "session_inv h0 a sz K (ys, g, h)"
  shows "session_inv h0 a sz (insert k K)
     (ys, g, if k < length ys then h\<lparr>masks := (masks h)[fst (snd (ys ! k)) := x]\<rparr> else h)"
  using assms by (auto simp: session_inv_def Let_def nth_list_update)

lemma session_inv_mono:
  "session_inv h0 a sz K s \<Longrightarrow> K \<subseteq> K' \<Longrightarrow> session_inv h0 a sz K' s"
  by (cases s) (auto simp: session_inv_def Let_def)

lemma session_inv_interact:
  assumes "session_inv h0 a sz K s" and fits: "2 * sz + 1 \<le> ssize_max"
  shows "session_inv h0 a sz (K \<union> {k. \<exists>x. Mutate k x \<in> set acts}) (interact acts s)
       \<and> length (fst (interact acts s))
           = min (length (fst s) + length (filter (\<lambda>c. c = Next) acts))
                 (length (pixel_positions (shape (images h0 ! a))))"
  using assms
proof (induction acts arbitrary: s K)
  case Nil
  then show ?case by (cases s) (simp add: session_inv_def Let_def)
next
  case (Cons c acts)
  obtain ys g h where s: "s = (ys, g, h)" by (cases s)
  show ?case
  proof (cases c)
    case Next
    let ?s' = "case next_kernel g h of
        (Inl e, g', h') \<Rightarrow> (ys, g', h')
      | (Inr y, g', h') \<Rightarrow> (ys @ [y], g', h')"
    have eq: "interact (c # acts) s = interact acts ?s'"
      unfolding s Next by (simp split: prod.splits sum.splits)
    from session_inv_next [OF Cons.prems(1) [unfolded s] fits]
    have inv': "session_inv h0 a sz K ?s'"
      and len: "length (fst ?s') = min (Suc (length ys)) (length (pixel_positions (shape (images h0 ! a))))"
      by blast+
    from Cons.IH [OF inv' fits] len show ?thesis
      unfolding eq by (simp add: Next s)
  next
    case (Mutate k x)
    let ?s' = "(ys, g, if k < length ys then h\<lparr>masks := (masks h)[fst (snd (ys ! k)) := x]\<rparr> else h)"
    have eq: "interact (c # acts) s = interact acts ?s'"
      unfolding s Mutate by simp
    have sets: "insert k K \<union> {k. \<exists>x. Mutate k x \<in> set acts}
        = K \<union> {j. \<exists>x. Mutate j x \<in> set (c # acts)}"
      unfolding Mutate by auto
    from Cons.IH [OF session_inv_mutate [OF Cons.prems(1) [unfolded s], of k x] fits]
    show ?thesis
      unfolding eq sets [symmetric] by (simp add: Mutate s)
  qed
qed

lemma length_iter_kernel:
  assumes "2 * sz + 1 \<le> ssize_max"
  shows "length (fst (iter_kernel a sz)) = fst (shape a) * snd (shape a)"
  using length_pixel_positions [of "fst (shape a)" "snd (shape a)"]
  by (simp add: iter_kernel_value [OF assms])

lemma bright_square_length: "length (fst (iter_kernel bright_square 1)) = 49"
  by (simp add: length_iter_kernel bright_square_def tabulate_def)

lemma yielded_index:
  assumes "n < length (fst (iter_kernel a sz))"
  shows "2 * sz + 1 \<le> ssize_max" "n < fst (shape a) * snd (shape a)"
proof -
  show fits: "2 * sz + 1 \<le> ssize_max"
  proof (rule ccontr)
    assume "\<not> 2 * sz + 1 \<le> ssize_max"
    then have "fst (iter_kernel a sz) = []" by (simp add: iter_kernel_raises_overflow)
    with assms show False by simp
  qed
  from assms show "n < fst (shape a) * snd (shape a)"
    by (simp add: length_iter_kernel [OF fits])
qed

section \<open>The cache of frames\<close>

declare fill_cache.simps [simp del]

lemma demo_inv_init: "demo_inv ar h0 a (mean_filter_demo h0 a, h0)"
  by (simp add: demo_inv_def mean_filter_demo_def iter_kernel_gen_def)

lemma shape_setitem: "setitem x p v = Inr y \<Longrightarrow> shape y = shape x"
  by (auto simp: setitem_def split: if_splits)

lemma cache_next_frame_inv:
  assumes a: "a < length (images h0)" and inv: "demo_inv ar h0 a (d, h)"
    and k: "int (length (d_cache d)) \<le> k"
  shows "case cache_next_frame ar lab k d h of (r, d', h') \<Rightarrow>
           demo_inv ar h0 a (d', h')
         \<and> length (images h) \<le> length (images h')
         \<and> (\<forall>j<length (images h). images h' ! j = images h ! j)
         \<and> (case r of None \<Rightarrow> \<exists>fr. d_cache d' = d_cache d @ [fr]
                     | Some e \<Rightarrow> d_cache d' = d_cache d)
         \<and> ((k = 0 \<or> d_cache d \<noteq> [])
              \<and> length (d_cache d) < length (pixel_positions (shape (images h0 ! a)))
              \<longrightarrow> r = None)"
proof -
  let ?img = "images h0 ! a"
  let ?ps = "pixel_positions (shape ?img)"
  let ?n = "length (d_cache d)"
  from inv have i:
    "d_image d = a" "length (images h0) \<le> length (images h)"
    "\<And>j. j < length (images h0) \<Longrightarrow> images h ! j = images h0 ! j"
    "?n \<le> length ?ps"
    "d_gen d = \<lparr>g_image = a, g_size = 1, g_pending = drop ?n ?ps\<rparr>"
    "\<And>m. m < ?n \<Longrightarrow> length (images h0) \<le> snd (d_cache d ! m)
          \<and> snd (d_cache d ! m) < length (images h)
          \<and> shape (images h ! snd (d_cache d ! m)) = shape ?img
          \<and> setitem (if m = 0 then ?img else images h ! snd (d_cache d ! (m - 1)))
               (?ps ! m) (written_value ar ?img (?ps ! m))
             = Inr (images h ! snd (d_cache d ! m))"
    by (simp_all add: demo_inv_def Let_def)
  have img: "images h ! a = ?img" using a i(3) by simp
  show ?thesis
  proof (cases "k \<noteq> 0 \<and> d_cache d = []")
    case True
    then have "cache_next_frame ar lab k d h = (Some IndexError, d, h)"
      by (simp add: cache_next_frame_def)
    with inv True show ?thesis by simp
  next
    case False
    define src where "src = (if k = 0 then a else snd (last (d_cache d)))"
    define h1 where "h1 = h\<lparr>images := images h @ [images h ! src]\<rparr>"
    have n0: "k = 0 \<Longrightarrow> ?n = 0" using k by simp
    have src: "images h ! src = (if ?n = 0 then ?img else images h ! snd (d_cache d ! (?n - 1)))"
      using False n0 by (auto simp: src_def img last_conv_nth)
    have src_shape: "shape (images h ! src) = shape ?img"
      unfolding src using i(6) [of "?n - 1"] by auto
    have body: "cache_next_frame ar lab k d h =
      (case next_kernel (d_gen d) h1 of
         (Inl e, g', h2) \<Rightarrow> (Some e, d\<lparr>d_gen := g'\<rparr>, h2)
       | (Inr (p, m, subimage), g', h2) \<Rightarrow>
           (case setitem (images h2 ! length (images h)) p
                   (astype ar (np_sum ar (scale ar (mean_factor ar) (deref_view h2 subimage)))) of
              Inl e \<Rightarrow> (Some e, d\<lparr>d_gen := g'\<rparr>, h2)
            | Inr written \<Rightarrow>
                (None,
                 d\<lparr>d_gen := g',
                   d_cache := d_cache d @ [(lab (masks h2 ! m) (images h2 ! d_image d), length (images h))]\<rparr>,
                 h2\<lparr>images := (images h2)[length (images h) := written]\<rparr>)))"
      unfolding cache_next_frame_def Let_def src_def h1_def using False by (auto simp: i(1))
    have inv1: "demo_inv ar h0 a (d, h1)"
      using inv by (auto simp: demo_inv_def Let_def h1_def nth_append)
    have keep1: "length (images h) \<le> length (images h1)"
      "\<forall>j<length (images h). images h1 ! j = images h ! j"
      by (simp_all add: h1_def nth_append)
    show ?thesis
    proof (cases "?n < length ?ps")
      case False
      with i(4,5) have "g_pending (d_gen d) = []" by simp
      then have "next_kernel (d_gen d) h1 = (Inl StopIteration, d_gen d, h1)"
        by (simp add: next_kernel_def)
      with inv1 keep1 False show ?thesis by (simp add: body)
    next
      case True
      let ?p = "?ps ! ?n"
      have img1: "images h1 ! a = ?img"
        using a i(2) img by (simp add: h1_def nth_append)
      have pend: "g_pending (d_gen d) = ?p # drop (Suc ?n) ?ps"
        using True i(5) by (simp add: Cons_nth_drop_Suc)
      have "?p \<in> set (pixel_positions (fst (shape ?img), snd (shape ?img)))" using True by simp
      then have p: "fst ?p < fst (shape ?img)" "snd ?p < snd (shape ?img)"
        unfolding set_pixel_positions by (auto simp: mem_Times_iff)
      have gi: "g_image (d_gen d) = a" "g_size (d_gen d) = 1" by (simp_all add: i(5))
      have "2 * g_size (d_gen d) + 1 \<le> ssize_max" by (simp add: gi)
      note step = next_kernel_value [of "d_gen d" ?p "drop (Suc ?n) ?ps" h1, unfolded gi img1,
          OF pend p this [unfolded gi]]
      have val: "astype ar (np_sum ar (scale ar (mean_factor ar) (deref_view
             (h1\<lparr>masks := masks h1 @ [tabulate (shape ?img) (\<lambda>r c. if (r, c) = ?p then 1 else 0),
                                        kernel_mask (shape ?img) 1 ?p]\<rparr>)
             \<lparr>base = a, slices = kernel_slices (shape ?img) 1 ?p\<rparr>)))
           = written_value ar ?img ?p"
        by (simp add: deref_view_def written_value_def filter_value_def img1)
      have copy: "images h1 ! length (images h) = images h ! src"
        by (simp add: h1_def)
      obtain written where w: "setitem (images h ! src) ?p (written_value ar ?img ?p) = Inr written"
        using p src_shape by (auto simp: setitem_def)
      have wshape: "shape written = shape ?img"
        using shape_setitem [OF w] src_shape by simp
      define d' where "d' = d\<lparr>d_gen := d_gen d\<lparr>g_pending := drop (Suc ?n) ?ps\<rparr>,
                   d_cache := d_cache d @ [(lab (kernel_mask (shape ?img) 1 ?p) ?img, length (images h))]\<rparr>"
      define h' where "h' = h1\<lparr>masks := masks h1 @ [tabulate (shape ?img) (\<lambda>r c. if (r, c) = ?p then 1 else 0),
                                        kernel_mask (shape ?img) 1 ?p],
                    images := (images h1)[length (images h) := written]\<rparr>"
      have res: "cache_next_frame ar lab k d h = (None, d', h')"
        unfolding body step prod.case sum.case d'_def h'_def
        by (simp add: val copy w i(1) img1 nth_append)
      have len': "length (images h') = Suc (length (images h))" by (simp add: h'_def h1_def)
      have old: "images h' ! j = images h ! j" if "j < length (images h)" for j
        using that by (simp add: h'_def h1_def nth_append)
      have new: "images h' ! length (images h) = written" by (simp add: h'_def h1_def)
      have cache': "d_cache d' = d_cache d @ [(lab (kernel_mask (shape ?img) 1 ?p) ?img, length (images h))]"
        by (simp add: d'_def)
      have c: "d_cache d' ! j = d_cache d ! j" if "j < ?n" for j
        using that by (simp add: cache' nth_append)
      have cn: "snd (d_cache d' ! ?n) = length (images h)"
        by (simp add: cache')
      have frames: "length (images h0) \<le> snd (d_cache d' ! m)
          \<and> snd (d_cache d' ! m) < length (images h')
          \<and> shape (images h' ! snd (d_cache d' ! m)) = shape ?img
          \<and> setitem (if m = 0 then ?img else images h' ! snd (d_cache d' ! (m - 1)))
               (?ps ! m) (written_value ar ?img (?ps ! m))
             = Inr (images h' ! snd (d_cache d' ! m))"
        if m: "m < Suc ?n" for m
      proof (cases "m < ?n")
        case True
        note f = i(6) [OF True]
        have lt: "snd (d_cache d ! m) < length (images h)" using f by simp
        show ?thesis
        proof (cases "m = 0")
          case True
          with f lt show ?thesis
            unfolding c [OF \<open>m < ?n\<close>] old [OF lt] len' by simp
        next
          case False
          then have m1: "m - 1 < ?n" using True by simp
          have lt1: "snd (d_cache d ! (m - 1)) < length (images h)" using i(6) [OF m1] by simp
          from False f lt show ?thesis
            unfolding c [OF \<open>m < ?n\<close>] c [OF m1] old [OF lt] old [OF lt1] len' by simp
        qed
      next
        case False
        with m have mn: "m = ?n" by simp
        have prev: "setitem (if ?n = 0 then ?img else images h' ! snd (d_cache d' ! (?n - 1)))
               ?p (written_value ar ?img ?p) = Inr written"
        proof (cases "?n = 0")
          case True
          with w src show ?thesis by simp
        next
          case False
          then have m1: "?n - 1 < ?n" by simp
          have lt1: "snd (d_cache d ! (?n - 1)) < length (images h)" using i(6) [OF m1] by simp
          from False w src show ?thesis
            unfolding c [OF m1] old [OF lt1] by simp
        qed
        show ?thesis
          unfolding mn cn new len' using prev i(2) wshape by simp
      qed
      have inv': "demo_inv ar h0 a (d', h')"
        unfolding demo_inv_def prod.case Let_def
      proof (intro conjI allI impI)
        show "d_image d' = a" by (simp add: d'_def i(1))
        show "length (images h0) \<le> length (images h')" using i(2) len' by simp
        show "images h' ! j = images h0 ! j" if "j < length (images h0)" for j
          using that i(2,3) old [of j] by simp
        show "length (d_cache d') \<le> length ?ps" using True by (simp add: cache')
        show "d_gen d' = \<lparr>g_image = a, g_size = 1, g_pending = drop (length (d_cache d')) ?ps\<rparr>"
          by (simp add: d'_def i(5))
      next
        fix m assume "m < length (d_cache d')"
        then have "m < Suc ?n" by (simp add: cache')
        from frames [OF this]
        show "length (images h0) \<le> snd (d_cache d' ! m)"
          "snd (d_cache d' ! m) < length (images h')"
          "shape (images h' ! snd (d_cache d' ! m)) = shape ?img"
          "setitem (if m = 0 then ?img else images h' ! snd (d_cache d' ! (m - 1)))
               (?ps ! m) (written_value ar ?img (?ps ! m))
             = Inr (images h' ! snd (d_cache d' ! m))"
          by blast+
      qed
      show ?thesis
        unfolding res prod.case option.case
        using inv' old len' cache' by simp
    qed
  qed
qed

lemma fill_cache_inv:
  assumes "a < length (images h0)" "demo_inv ar h0 a (d, h)"
  shows "case fill_cache ar lab k d h of (r, d', h') \<Rightarrow>
           demo_inv ar h0 a (d', h')
         \<and> length (images h) \<le> length (images h')
         \<and> (\<forall>j<length (images h). images h' ! j = images h ! j)
         \<and> take (length (d_cache d)) (d_cache d') = d_cache d
         \<and> length (d_cache d) \<le> length (d_cache d')
         \<and> int (length (d_cache d')) \<le> max (int (length (d_cache d))) (k + 1)
         \<and> (k < int (length (d_cache d)) \<longrightarrow> r = None \<and> d' = d \<and> h' = h)
         \<and> (r = None \<longrightarrow> k < int (length (d_cache d')))
         \<and> ((k = 0 \<or> d_cache d \<noteq> [])
              \<and> k < int (length (pixel_positions (shape (images h0 ! a))))
              \<longrightarrow> r = None)"
  using assms
proof (induction ar lab k d h rule: fill_cache.induct)
  case (1 ar lab k d h)
  show ?case
  proof (cases "int (length (d_cache d)) \<le> k")
    case False
    then have "fill_cache ar lab k d h = (None, d, h)"
      by (subst fill_cache.simps) simp
    with False "1.prems" show ?thesis by simp
  next
    case True
    obtain r d1 h1 where body: "cache_next_frame ar lab k d h = (r, d1, h1)"
      by (metis prod_cases3)
    from cache_next_frame_inv [OF "1.prems" True, of lab] body
    have b: "demo_inv ar h0 a (d1, h1)" "length (images h) \<le> length (images h1)"
      "\<forall>j<length (images h). images h1 ! j = images h ! j"
      "case r of None \<Rightarrow> \<exists>fr. d_cache d1 = d_cache d @ [fr] | Some e \<Rightarrow> d_cache d1 = d_cache d"
      "(k = 0 \<or> d_cache d \<noteq> [])
          \<and> length (d_cache d) < length (pixel_positions (shape (images h0 ! a))) \<longrightarrow> r = None"
      by simp_all
    show ?thesis
    proof (cases r)
      case (Some e)
      then have "fill_cache ar lab k d h = (Some e, d1, h1)"
        using True body by (subst fill_cache.simps) simp
      with b Some True show ?thesis by auto
    next
      case None
      then have eq: "fill_cache ar lab k d h = fill_cache ar lab k d1 h1"
        using True body by (subst fill_cache.simps) simp
      from b(4) None obtain fr where c1: "d_cache d1 = d_cache d @ [fr]" by auto
      obtain r2 d2 h2 where f2: "fill_cache ar lab k d1 h1 = (r2, d2, h2)"
        by (metis prod_cases3)
      from "1.IH" [OF True body [symmetric] None refl "1.prems"(1) b(1)] f2
      have ih: "demo_inv ar h0 a (d2, h2)" "length (images h1) \<le> length (images h2)"
        "\<forall>j<length (images h1). images h2 ! j = images h1 ! j"
        "take (length (d_cache d1)) (d_cache d2) = d_cache d1"
        "length (d_cache d1) \<le> length (d_cache d2)"
        "int (length (d_cache d2)) \<le> max (int (length (d_cache d1))) (k + 1)"
        "r2 = None \<longrightarrow> k < int (length (d_cache d2))"
        "(k = 0 \<or> d_cache d1 \<noteq> [])
            \<and> k < int (length (pixel_positions (shape (images h0 ! a)))) \<longrightarrow> r2 = None"
        by simp_all
      have "take (length (d_cache d)) (d_cache d2) = d_cache d"
      proof -
        have "take (length (d_cache d)) (d_cache d2)
            = take (length (d_cache d)) (take (length (d_cache d1)) (d_cache d2))"
          by (simp add: c1 min_def)
        also have "\<dots> = take (length (d_cache d)) (d_cache d1)" by (simp only: ih(4))
        also have "\<dots> = d_cache d" by (simp add: c1)
        finally show ?thesis .
      qed
      moreover have "\<forall>j<length (images h). images h2 ! j = images h ! j"
        using b(2,3) ih(3) by auto
      moreover have "int (length (d_cache d2)) \<le> max (int (length (d_cache d))) (k + 1)"
        using ih(6) True c1 by simp
      ultimately show ?thesis
        unfolding eq f2 prod.case using ih b(2) True c1 by simp
    qed
  qed
qed

lemma snd_mean_filter_step:
  "snd (mean_filter_step ar lab k d h) = snd (fill_cache ar lab k d h)"
  by (simp add: mean_filter_step_def Let_def split: prod.splits option.splits)

lemma fst_mean_filter_step_revisit:
  assumes "fill_cache ar lab k d h = (None, d, h)" "0 \<le> k" "k < int (length (d_cache d))"
  shows "fst (mean_filter_step ar lab k d h)
           = Inr (fst (d_cache d ! nat k), images h ! snd (d_cache d ! nat k))"
  using assms by (simp add: mean_filter_step_def Let_def)

lemma fst_mean_filter_step_ok:
  assumes "fill_cache ar lab k d h = (None, d', h')" "0 \<le> k" "k < int (length (d_cache d'))"
  shows "fst (mean_filter_step ar lab k d h)
           = Inr (fst (d_cache d' ! nat k), images h' ! snd (d_cache d' ! nat k))"
  using assms by (simp add: mean_filter_step_def Let_def)

lemma run_demo_inv:
  assumes "a < length (images h0)" "demo_inv ar h0 a s"
  shows "demo_inv ar h0 a (run_demo ar lab ks s)"
  using assms(2)
proof (induction ks arbitrary: s)
  case Nil
  then show ?case by simp
next
  case (Cons k ks)
  obtain d h where s: "s = (d, h)" by (cases s)
  obtain r d' h' where f: "fill_cache ar lab k d h = (r, d', h')" by (metis prod_cases3)
  from fill_cache_inv [OF assms(1) Cons.prems [unfolded s], where lab = lab and k = k] f
  have "demo_inv ar h0 a (d', h')" by simp
  then have "demo_inv ar h0 a (run_demo ar lab ks (d', h'))" by (rule Cons.IH)
  then show ?case by (simp add: s snd_mean_filter_step f)
qed

lemma wf_setitem: "setitem x p v = Inr y \<Longrightarrow> wf_array x \<Longrightarrow> wf_array y"
  by (auto simp: setitem_def wf_array_def list_all_length nth_list_update split: if_splits)

lemma getitem_setitem:
  assumes "setitem x p v = Inr y" "wf_array x" "r < fst (shape x)" "c < snd (shape x)"
  shows "getitem y (r, c) = (if (r, c) = p then Inr v else getitem x (r, c))"
proof -
  from assms(1) have p: "fst p < fst (shape x)" "snd p < snd (shape x)"
    and y: "y = x\<lparr>rows := (rows x)[fst p := (rows x ! fst p)[snd p := v]]\<rparr>"
    by (auto simp: setitem_def split: if_splits)
  from assms(2) have len: "length (rows x) = fst (shape x)"
    and row: "\<And>i. i < fst (shape x) \<Longrightarrow> length (rows x ! i) = snd (shape x)"
    by (auto simp: wf_array_def list_all_length)
  show ?thesis
    using assms(3,4) p len row
    by (cases p) (auto simp: y getitem_def nth_list_update)
qed



lemma written_value_window:
  assumes "shape img = (H, W)" "m < H * W"
  shows "written_value ar img (m div W, m mod W)
           = filter_value ar (snd (snd (fst (iter_kernel img 1) ! m)))"
  using assms
  by (simp add: written_value_def iter_kernel_value
      length_pixel_positions nth_pixel_positions)

lemma demo_frames:
  assumes a: "a < length (images h0)" and wf: "wf_array (images h0 ! a)"
    and sh: "shape (images h0 ! a) = (H, W)" and inv: "demo_inv ar h0 a (d, h)"
    and m: "m < length (d_cache d)"
  shows "m < H * W"
    and "wf_array (images h ! snd (d_cache d ! m))"
    and "shape (images h ! snd (d_cache d ! m)) = (H, W)"
    and "\<forall>r<H. \<forall>c<W. getitem (images h ! snd (d_cache d ! m)) (r, c) =
           (if (r, c) = (m div W, m mod W)
            then Inr (filter_value ar (snd (snd (fst (iter_kernel (images h0 ! a) 1) ! m))))
            else getitem (if m = 0 then images h0 ! a else images h ! snd (d_cache d ! (m - 1))) (r, c))"
proof -
  let ?img = "images h0 ! a"
  let ?ps = "pixel_positions (H, W)"
  from inv have n: "length (d_cache d) \<le> length ?ps"
    and fr: "\<And>m. m < length (d_cache d) \<Longrightarrow>
          shape (images h ! snd (d_cache d ! m)) = (H, W)
          \<and> setitem (if m = 0 then ?img else images h ! snd (d_cache d ! (m - 1)))
               (?ps ! m) (written_value ar ?img (?ps ! m))
             = Inr (images h ! snd (d_cache d ! m))"
    by (simp_all add: demo_inv_def Let_def sh)
  show mHW: "m < H * W" using n m by (simp add: length_pixel_positions)
  have wfs: "j < length (d_cache d) \<Longrightarrow> wf_array (images h ! snd (d_cache d ! j))" for j
  proof (induction j)
    case 0
    with fr [of 0] wf show ?case by (auto intro: wf_setitem)
  next
    case (Suc j)
    then have "wf_array (images h ! snd (d_cache d ! j))" by simp
    with fr [OF Suc.prems] show ?case by (auto intro: wf_setitem)
  qed
  show "wf_array (images h ! snd (d_cache d ! m))" using m by (rule wfs)
  show "shape (images h ! snd (d_cache d ! m)) = (H, W)" using fr [OF m] by simp
  let ?prev = "if m = 0 then ?img else images h ! snd (d_cache d ! (m - 1))"
  have wfp: "wf_array ?prev" using wf wfs [of "m - 1"] m by auto
  have shp: "shape ?prev = (H, W)" using sh fr [of "m - 1"] m by auto
  have set: "setitem ?prev (m div W, m mod W) (filter_value ar (snd (snd (fst (iter_kernel ?img 1) ! m))))
       = Inr (images h ! snd (d_cache d ! m))"
    using fr [OF m] mHW by (simp add: nth_pixel_positions written_value_window [OF sh])
  show "\<forall>r<H. \<forall>c<W. getitem (images h ! snd (d_cache d ! m)) (r, c) =
           (if (r, c) = (m div W, m mod W)
            then Inr (filter_value ar (snd (snd (fst (iter_kernel ?img 1) ! m))))
            else getitem ?prev (r, c))"
  proof (intro allI impI)
    fix r c assume "r < H" "c < W"
    then have "r < fst (shape ?prev)" "c < snd (shape ?prev)" by (simp_all add: shp)
    from getitem_setitem [OF set wfp this]
    show "getitem (images h ! snd (d_cache d ! m)) (r, c) =
           (if (r, c) = (m div W, m mod W)
            then Inr (filter_value ar (snd (snd (fst (iter_kernel ?img 1) ! m))))
            else getitem ?prev (r, c))" .
  qed
qed

lemma mean_filter_step_props:
  assumes a: "a < length (images h0)" and sh: "shape (images h0 ! a) = (H, W)"
    and inv: "demo_inv ar h0 a (d, h)"
    and step: "mean_filter_step ar lab k d h = (res, d', h')"
  shows "demo_inv ar h0 a (d', h')"
    and "take (length (d_cache d)) (d_cache d') = d_cache d"
    and "int (length (d_cache d')) \<le> max (int (length (d_cache d))) (k + 1)"
    and "\<forall>j<length (images h). images h' ! j = images h ! j"
    and "\<forall>m<length (d_cache d). snd (d_cache d ! m) < length (images h)"
    and "0 \<le> k \<and> k < int (length (d_cache d)) \<longrightarrow>
           d' = d \<and> h' = h
         \<and> res = Inr (fst (d_cache d ! nat k), images h ! snd (d_cache d ! nat k))"
    and "g_pending (d_gen d') = drop (length (d_cache d')) (pixel_positions (H, W))"
    and "0 \<le> k \<and> k < int (H * W) \<and> (k = 0 \<or> d_cache d \<noteq> []) \<longrightarrow>
           (\<exists>ov fr. res = Inr (ov, fr))
         \<and> int (length (d_cache d')) = max (int (length (d_cache d))) (k + 1)"
proof -
  obtain r where f: "fill_cache ar lab k d h = (r, d', h')"
    using step snd_mean_filter_step [of ar lab k d h] by (cases "fill_cache ar lab k d h") simp
  from fill_cache_inv [OF a inv, where lab = lab and k = k] f
  have p: "demo_inv ar h0 a (d', h')"
    "\<forall>j<length (images h). images h' ! j = images h ! j"
    "take (length (d_cache d)) (d_cache d') = d_cache d"
    "length (d_cache d) \<le> length (d_cache d')"
    "int (length (d_cache d')) \<le> max (int (length (d_cache d))) (k + 1)"
    "k < int (length (d_cache d)) \<longrightarrow> r = None \<and> d' = d \<and> h' = h"
    "r = None \<longrightarrow> k < int (length (d_cache d'))"
    "(k = 0 \<or> d_cache d \<noteq> []) \<and> k < int (length (pixel_positions (shape (images h0 ! a))))
       \<longrightarrow> r = None"
    by simp_all
  show "demo_inv ar h0 a (d', h')" by (rule p(1))
  show "take (length (d_cache d)) (d_cache d') = d_cache d" by (rule p(3))
  show "int (length (d_cache d')) \<le> max (int (length (d_cache d))) (k + 1)" by (rule p(5))
  show "\<forall>j<length (images h). images h' ! j = images h ! j" by (rule p(2))
  show "\<forall>m<length (d_cache d). snd (d_cache d ! m) < length (images h)"
    using inv by (simp add: demo_inv_def Let_def)
  show "0 \<le> k \<and> k < int (length (d_cache d)) \<longrightarrow>
           d' = d \<and> h' = h
         \<and> res = Inr (fst (d_cache d ! nat k), images h ! snd (d_cache d ! nat k))"
  proof
    assume k: "0 \<le> k \<and> k < int (length (d_cache d))"
    with p(6) have e: "r = None" "d' = d" "h' = h" by simp_all
    with f have "fill_cache ar lab k d h = (None, d, h)" by simp
    from fst_mean_filter_step_revisit [OF this] k step
    have "res = Inr (fst (d_cache d ! nat k), images h ! snd (d_cache d ! nat k))" by simp
    with e show "d' = d \<and> h' = h
         \<and> res = Inr (fst (d_cache d ! nat k), images h ! snd (d_cache d ! nat k))" by simp
  qed
  show "g_pending (d_gen d') = drop (length (d_cache d')) (pixel_positions (H, W))"
    using p(1) by (simp add: demo_inv_def Let_def sh)
  show "0 \<le> k \<and> k < int (H * W) \<and> (k = 0 \<or> d_cache d \<noteq> []) \<longrightarrow>
           (\<exists>ov fr. res = Inr (ov, fr))
         \<and> int (length (d_cache d')) = max (int (length (d_cache d))) (k + 1)"
  proof
    assume k: "0 \<le> k \<and> k < int (H * W) \<and> (k = 0 \<or> d_cache d \<noteq> [])"
    with p(8) have r: "r = None" by (simp add: sh length_pixel_positions)
    with p(7) have lt: "k < int (length (d_cache d'))" by simp
    from fst_mean_filter_step_ok [OF f [unfolded r] _ lt] k step
    have "res = Inr (fst (d_cache d' ! nat k), images h' ! snd (d_cache d' ! nat k))" by simp
    moreover have "int (length (d_cache d')) = max (int (length (d_cache d))) (k + 1)"
      using p(4,5) lt by linarith
    ultimately show "(\<exists>ov fr. res = Inr (ov, fr))
         \<and> int (length (d_cache d')) = max (int (length (d_cache d))) (k + 1)" by blast
  qed
qed










lemma centre_dot_wf: "wf_array centre_dot" "shape centre_dot = (3, 3)"
  by (simp_all add: centre_dot_def wf_tabulate) (simp add: tabulate_def)

lemma dot_heap_image:
  "0 < length (images dot_heap)" "wf_array (images dot_heap ! 0)"
  "shape (images dot_heap ! 0) = (3, 3)" "images dot_heap ! 0 = centre_dot"
  by (simp_all add: dot_heap_def centre_dot_wf)

lemma dot_windows:
  "snd (snd (fst (iter_kernel centre_dot 1) ! 0)) = \<lparr>shape = (2, 2), rows = [[0, 0], [0, 1]]\<rparr>"
  "snd (snd (fst (iter_kernel centre_dot 1) ! 1))
     = \<lparr>shape = (2, 3), rows = [[0, 0, 0], [0, 1, 0]]\<rparr>"
proof -
  have "snd (snd (fst (iter_kernel centre_dot 1) ! 0)) = clamped_window centre_dot 1 (0, 0)"
    using nth_iter_kernel [OF centre_dot_wf, of 1 0] by simp
  also have "\<dots> = \<lparr>shape = (2, 2), rows = [[0, 0], [0, 1]]\<rparr>"
    by (simp add: clamped_window_def restrict_array_def window_bounds_def centre_dot_def
        tabulate_def upt_conv_Cons)
  finally show "snd (snd (fst (iter_kernel centre_dot 1) ! 0))
      = \<lparr>shape = (2, 2), rows = [[0, 0], [0, 1]]\<rparr>" .
  have "snd (snd (fst (iter_kernel centre_dot 1) ! 1)) = clamped_window centre_dot 1 (0, 1)"
    using nth_iter_kernel [OF centre_dot_wf, of 1 1] by simp
  also have "\<dots> = \<lparr>shape = (2, 3), rows = [[0, 0, 0], [0, 1, 0]]\<rparr>"
    by (simp add: clamped_window_def restrict_array_def window_bounds_def centre_dot_def
        tabulate_def upt_conv_Cons)
  finally show "snd (snd (fst (iter_kernel centre_dot 1) ! 1))
      = \<lparr>shape = (2, 3), rows = [[0, 0, 0], [0, 1, 0]]\<rparr>" .
qed

lemma dot_session_inv: "demo_inv exact dot_heap 0 dot_session"
  unfolding dot_session_def
  using dot_heap_image(1) demo_inv_init by (rule run_demo_inv)

lemma dot_session_length: "length (d_cache (fst dot_session)) = 3"
proof -
  let ?d0 = "mean_filter_demo dot_heap 0 :: unit demo"
  define s1 where "s1 = snd (mean_filter_step exact (\<lambda>m i. ()) 0 ?d0 dot_heap)"
  have ds: "dot_session = snd (mean_filter_step exact (\<lambda>m i. ()) 2 (fst s1) (snd s1))"
    by (simp add: dot_session_def s1_def)
  have "demo_inv exact dot_heap 0 (run_demo exact (\<lambda>m i. ()) [0] (?d0, dot_heap))"
    using dot_heap_image(1) demo_inv_init by (rule run_demo_inv)
  then have inv1: "demo_inv exact dot_heap 0 (fst s1, snd s1)" by (simp add: s1_def)
  have step1: "mean_filter_step exact (\<lambda>m i. ()) 0 ?d0 dot_heap
      = (fst (mean_filter_step exact (\<lambda>m i. ()) 0 ?d0 dot_heap), fst s1, snd s1)"
    by (simp add: s1_def)
  have "int (length (d_cache (fst s1))) = max (int (length (d_cache ?d0))) (0 + 1)"
    using mean_filter_step_props(8) [OF dot_heap_image(1,3) demo_inv_init step1] by simp
  then have l1: "length (d_cache (fst s1)) = 1" by (simp add: mean_filter_demo_def)
  then have ne: "d_cache (fst s1) \<noteq> []" by auto
  have step2: "mean_filter_step exact (\<lambda>m i. ()) 2 (fst s1) (snd s1)
      = (fst (mean_filter_step exact (\<lambda>m i. ()) 2 (fst s1) (snd s1)),
         fst dot_session, snd dot_session)"
    by (simp add: ds)
  have "int (length (d_cache (fst dot_session))) = max (int (length (d_cache (fst s1)))) (2 + 1)"
    using mean_filter_step_props(8) [OF dot_heap_image(1,3) inv1 step2] ne by simp
  then show ?thesis by (simp add: l1)
qed

section \<open>The shared intensity scale\<close>

lemma map_raising_total:
  "(\<And>x. x \<in> set xs \<Longrightarrow> f x = Inr (g x)) \<Longrightarrow> map_raising f xs = Inr (map g xs)"
  by (induction xs) simp_all

lemma Min_of_mins:
  fixes xss :: "real list list"
  assumes "xss \<noteq> []" "\<And>xs. xs \<in> set xss \<Longrightarrow> xs \<noteq> []"
  shows "Min (set (map (\<lambda>xs. Min (set xs)) xss)) = Min (set (concat xss))"
proof (rule sym, rule Min_eqI)
  show "finite (set (concat xss))" by simp
next
  fix y assume "y \<in> set (concat xss)"
  then obtain xs where xs: "xs \<in> set xss" "y \<in> set xs" by auto
  then have "Min (set (map (\<lambda>xs. Min (set xs)) xss)) \<le> Min (set xs)" by simp
  also have "\<dots> \<le> y" using xs(2) by simp
  finally show "Min (set (map (\<lambda>xs. Min (set xs)) xss)) \<le> y" .
next
  have "set (map (\<lambda>xs. Min (set xs)) xss) \<noteq> {}" using assms(1) by simp
  then have "Min (set (map (\<lambda>xs. Min (set xs)) xss)) \<in> set (map (\<lambda>xs. Min (set xs)) xss)"
    by (intro Min_in) simp_all
  then obtain xs where xs: "xs \<in> set xss" "Min (set (map (\<lambda>xs. Min (set xs)) xss)) = Min (set xs)"
    by auto
  from assms(2) [OF xs(1)] have "Min (set xs) \<in> set xs" by (intro Min_in) simp_all
  with xs show "Min (set (map (\<lambda>xs. Min (set xs)) xss)) \<in> set (concat xss)" by auto
qed

lemma Max_of_maxs:
  fixes xss :: "real list list"
  assumes "xss \<noteq> []" "\<And>xs. xs \<in> set xss \<Longrightarrow> xs \<noteq> []"
  shows "Max (set (map (\<lambda>xs. Max (set xs)) xss)) = Max (set (concat xss))"
proof (rule sym, rule Max_eqI)
  show "finite (set (concat xss))" by simp
next
  fix y assume "y \<in> set (concat xss)"
  then obtain xs where xs: "xs \<in> set xss" "y \<in> set xs" by auto
  then have "y \<le> Max (set xs)" by simp
  also have "\<dots> \<le> Max (set (map (\<lambda>xs. Max (set xs)) xss))" using xs(1) by simp
  finally show "y \<le> Max (set (map (\<lambda>xs. Max (set xs)) xss))" .
next
  have "set (map (\<lambda>xs. Max (set xs)) xss) \<noteq> {}" using assms(1) by simp
  then have "Max (set (map (\<lambda>xs. Max (set xs)) xss)) \<in> set (map (\<lambda>xs. Max (set xs)) xss)"
    by (intro Max_in) simp_all
  then obtain xs where xs: "xs \<in> set xss" "Max (set (map (\<lambda>xs. Max (set xs)) xss)) = Max (set xs)"
    by auto
  from assms(2) [OF xs(1)] have "Max (set xs) \<in> set xs" by (intro Max_in) simp_all
  with xs show "Max (set (map (\<lambda>xs. Max (set xs)) xss)) \<in> set (concat xss)" by auto
qed

lemma min_map_np_min:
  assumes "as \<noteq> []" "\<And>a. a \<in> set as \<Longrightarrow> concat (rows a) \<noteq> []"
  shows "min_map np_min as = Inr (Min (set (concat (map (\<lambda>a. concat (rows a)) as))))"
proof -
  have "map_raising np_min as = Inr (map (\<lambda>a. Min (set (concat (rows a)))) as)"
    by (rule map_raising_total) (use assms(2) in \<open>simp add: np_min_def\<close>)
  moreover have "Min (set (map (\<lambda>xs. Min (set xs)) (map (\<lambda>a. concat (rows a)) as)))
      = Min (set (concat (map (\<lambda>a. concat (rows a)) as)))"
    by (rule Min_of_mins) (use assms in \<open>auto simp del: concat_eq_Nil_conv\<close>)
  ultimately show ?thesis using assms(1) by (simp add: min_map_def comp_def)
qed

lemma max_map_np_max:
  assumes "as \<noteq> []" "\<And>a. a \<in> set as \<Longrightarrow> concat (rows a) \<noteq> []"
  shows "max_map np_max as = Inr (Max (set (concat (map (\<lambda>a. concat (rows a)) as))))"
proof -
  have "map_raising np_max as = Inr (map (\<lambda>a. Max (set (concat (rows a)))) as)"
    by (rule map_raising_total) (use assms(2) in \<open>simp add: np_max_def\<close>)
  moreover have "Max (set (map (\<lambda>xs. Max (set xs)) (map (\<lambda>a. concat (rows a)) as)))
      = Max (set (concat (map (\<lambda>a. concat (rows a)) as)))"
    by (rule Max_of_maxs) (use assms in \<open>auto simp del: concat_eq_Nil_conv\<close>)
  ultimately show ?thesis using assms(1) by (simp add: max_map_def comp_def)
qed

section \<open>The claims\<close>

text \<open>
  Claim C1. For an image of height and width at least 1 and a non-negative size, the
  mask of every yielded triple (the \<open>n\<close>-th, for every \<open>n\<close> below the number of
  triples yielded), built with the dilation primitive, is the mask of direct
  clamped-range assignment: it has the image's shape, holds 2 at the position, 1 at
  exactly the other cells of the clamped square of radius \<open>size\<close> around the
  position, and 0 everywhere else.
\<close>

theorem iter_kernel_mask:
  assumes "wf_array img" "shape img = (h, w)" "1 \<le> h" "1 \<le> w" "0 \<le> sz"
    and "n < length (fst (iter_kernel img sz))"
  shows "case fst (iter_kernel img sz) ! n of (p, m, win) \<Rightarrow>
           p = (n div w, n mod w)
         \<and> m = clamped_mask (h, w) sz p
         \<and> shape m = (h, w) \<and> wf_array m
         \<and> getitem m p = Inr 2
         \<and> (\<forall>r<h. \<forall>c<w. (r, c) \<noteq> p \<longrightarrow>
              getitem m (r, c) =
                Inr (if max (int (fst p) - sz) 0 \<le> int r \<and> int r < min (int (fst p) + sz + 1) (int h)
                      \<and> max (int (snd p) - sz) 0 \<le> int c \<and> int c < min (int (snd p) + sz + 1) (int w)
                     then 1 else 0))"
proof -
  note y = yielded_index [OF assms(6)]
  from y(2) have n: "n < h * w" by (simp add: assms(2))
  note b = nth_pixel_positions_bounds [OF n]
  show ?thesis
    unfolding nth_iter_kernel [OF assms(1,2,5) y(1) n] prod.case
    by (simp add: clamped_mask_tabulate getitem_tabulate wf_tabulate b in_window_int assms(5))
      (simp add: tabulate_def)
qed

theorem iter_kernel_mask_witness:
  "wf_array bright_square \<and> shape bright_square = (7, 7) \<and> (1::nat) \<le> 7 \<and> (0::int) \<le> 1
   \<and> (8::nat) < length (fst (iter_kernel bright_square 1))
   \<and> fst (fst (iter_kernel bright_square 1) ! 8) = (1, 1)
   \<and> fst (snd (fst (iter_kernel bright_square 1) ! 8)) = clamped_mask (7, 7) 1 (1, 1)
   \<and> getitem (fst (snd (fst (iter_kernel bright_square 1) ! 8))) (1, 1) = Inr 2
   \<and> getitem (fst (snd (fst (iter_kernel bright_square 1) ! 8))) (0, 2) = Inr 1
   \<and> getitem (fst (snd (fst (iter_kernel bright_square 1) ! 8))) (0, 3) = Inr 0"
proof -
  have "case fst (iter_kernel bright_square 1) ! 8 of (p, m, win) \<Rightarrow>
           p = (8 div 7, 8 mod 7)
         \<and> m = clamped_mask (7, 7) 1 p
         \<and> shape m = (7, 7) \<and> wf_array m
         \<and> getitem m p = Inr 2
         \<and> (\<forall>r<7. \<forall>c<7. (r, c) \<noteq> p \<longrightarrow>
              getitem m (r, c) =
                Inr (if max (int (fst p) - 1) 0 \<le> int r \<and> int r < min (int (fst p) + 1 + 1) (int 7)
                      \<and> max (int (snd p) - 1) 0 \<le> int c \<and> int c < min (int (snd p) + 1 + 1) (int 7)
                     then 1 else 0))"
    by (rule iter_kernel_mask) (simp_all add: bright_square_wf bright_square_length)
  then have p: "fst (fst (iter_kernel bright_square 1) ! 8) = (1, 1)"
    and m: "fst (snd (fst (iter_kernel bright_square 1) ! 8)) = clamped_mask (7, 7) 1 (1, 1)"
    by (simp_all add: case_prod_beta)
  have "getitem (clamped_mask (7, 7) 1 (1, 1)) (1, 1) = Inr 2"
       "getitem (clamped_mask (7, 7) 1 (1, 1)) (0, 2) = Inr 1"
       "getitem (clamped_mask (7, 7) 1 (1, 1)) (0, 3) = Inr 0"
    by (simp_all add: clamped_mask_tabulate getitem_tabulate in_window_def window_bounds_def)
  with p m show ?thesis by (simp add: bright_square_wf bright_square_length)
qed

text \<open>
  Claim C2. For an image of height and width at least 1 and a non-negative size, the
  window of every yielded triple, at its position \<open>(i, j)\<close>, is the image restricted to the rows
  \<open>[max(i-size,0), min(i+size+1,height))\<close> and the columns
  \<open>[max(j-size,0), min(j+size+1,width))\<close>; its shape is the pair of the two
  differences.
\<close>

theorem iter_kernel_window:
  assumes "wf_array img" "shape img = (h, w)" "1 \<le> h" "1 \<le> w" "0 \<le> sz"
    and "n < length (fst (iter_kernel img sz))"
  shows "case fst (iter_kernel img sz) ! n of (p, m, win) \<Rightarrow>
           p = (n div w, n mod w)
         \<and> win = restrict_array img
                   (nat (max (int (fst p) - sz) 0), nat (min (int (fst p) + sz + 1) (int h)))
                   (nat (max (int (snd p) - sz) 0), nat (min (int (snd p) + sz + 1) (int w)))
         \<and> int (fst (shape win)) = min (int (fst p) + sz + 1) (int h) - max (int (fst p) - sz) 0
         \<and> int (snd (shape win)) = min (int (snd p) + sz + 1) (int w) - max (int (snd p) - sz) 0
         \<and> wf_array win
         \<and> (\<forall>r<fst (shape win). \<forall>c<snd (shape win).
              getitem win (r, c) =
                getitem img (nat (max (int (fst p) - sz) 0) + r, nat (max (int (snd p) - sz) 0) + c))"
proof -
  note y = yielded_index [OF assms(6)]
  from y(2) have n: "n < h * w" by (simp add: assms(2))
  note b = nth_pixel_positions_bounds [OF n]
  let ?ra = "nat (max (int (n div w) - sz) 0)"
  let ?rb = "nat (min (int (n div w) + sz + 1) (int h))"
  let ?ca = "nat (max (int (n mod w) - sz) 0)"
  let ?cb = "nat (min (int (n mod w) + sz + 1) (int w))"
  let ?win = "restrict_array img (?ra, ?rb) (?ca, ?cb)"
  have win: "clamped_window img sz (n div w, n mod w) = ?win"
    by (simp add: clamped_window_def assms(2) window_bounds_def)
  have shp: "fst (shape ?win) = ?rb - ?ra" "snd (shape ?win) = ?cb - ?ca"
    by (simp_all add: restrict_array_def)
  have sh1: "int (fst (shape ?win)) = min (int (n div w) + sz + 1) (int h) - max (int (n div w) - sz) 0"
    unfolding shp using b(1) assms(5) by linarith
  have sh2: "int (snd (shape ?win)) = min (int (n mod w) + sz + 1) (int w) - max (int (n mod w) - sz) 0"
    unfolding shp using b(2) assms(5) by linarith
  have cells: "\<forall>r<fst (shape ?win). \<forall>c<snd (shape ?win).
      getitem ?win (r, c) = getitem img (?ra + r, ?ca + c)"
  proof (intro allI impI)
    fix r c assume "r < fst (shape ?win)" "c < snd (shape ?win)"
    then have "r < snd (?ra, ?rb) - fst (?ra, ?rb)" "c < snd (?ca, ?cb) - fst (?ca, ?cb)"
      by (simp_all add: shp)
    moreover have "snd (?ra, ?rb) \<le> fst (shape img)" "snd (?ca, ?cb) \<le> snd (shape img)"
      by (simp_all add: assms(2))
    ultimately have "getitem ?win (r, c) = getitem img (fst (?ra, ?rb) + r, fst (?ca, ?cb) + c)"
      by (rule getitem_restrict_array)
    then show "getitem ?win (r, c) = getitem img (?ra + r, ?ca + c)" by simp
  qed
  show ?thesis
    unfolding nth_iter_kernel [OF assms(1,2,5) y(1) n] prod.case win fst_conv snd_conv
    using sh1 sh2 cells wf_restrict_array [of img "(?ra, ?rb)" "(?ca, ?cb)"]
    by (intro conjI refl)
qed

theorem iter_kernel_window_witness:
  "wf_array bright_square \<and> shape bright_square = (7, 7) \<and> (1::nat) \<le> 7 \<and> (0::int) \<le> 1
   \<and> (6::nat) < length (fst (iter_kernel bright_square 1))
   \<and> fst (fst (iter_kernel bright_square 1) ! 6) = (0, 6)
   \<and> shape (snd (snd (fst (iter_kernel bright_square 1) ! 6))) = (2, 2)"
proof -
  have "case fst (iter_kernel bright_square 1) ! 6 of (p, m, win) \<Rightarrow>
           p = (6 div 7, 6 mod 7)
         \<and> win = restrict_array bright_square
                   (nat (max (int (fst p) - 1) 0), nat (min (int (fst p) + 1 + 1) (int 7)))
                   (nat (max (int (snd p) - 1) 0), nat (min (int (snd p) + 1 + 1) (int 7)))
         \<and> int (fst (shape win)) = min (int (fst p) + 1 + 1) (int 7) - max (int (fst p) - 1) 0
         \<and> int (snd (shape win)) = min (int (snd p) + 1 + 1) (int 7) - max (int (snd p) - 1) 0
         \<and> wf_array win
         \<and> (\<forall>r<fst (shape win). \<forall>c<snd (shape win).
              getitem win (r, c) =
                getitem bright_square (nat (max (int (fst p) - 1) 0) + r, nat (max (int (snd p) - 1) 0) + c))"
    by (rule iter_kernel_window) (simp_all add: bright_square_wf bright_square_length)
  moreover obtain p m win where t: "fst (iter_kernel bright_square 1) ! 6 = (p, m, win)"
    by (metis prod_cases3)
  ultimately have p: "p = (0, 6)"
    and "int (fst (shape win)) = min (int (fst p) + 1 + 1) (int 7) - max (int (fst p) - 1) 0"
    and "int (snd (shape win)) = min (int (snd p) + 1 + 1) (int 7) - max (int (snd p) - 1) 0"
    by (simp_all add: restrict_array_def)
  then have "fst (shape win) = 2" "snd (shape win) = 2" by simp_all
  with p t show ?thesis by (simp add: bright_square_wf bright_square_length prod_eq_iff)
qed

text \<open>
  Claim C3 (as amended). For an image of height and width at least 1 and a non-negative
  size whose width \<open>2 * size + 1\<close> fits the primitive's size argument (at most
  \<open>2^63 - 1\<close>), the iterator ends normally after exactly \<open>height * width\<close>
  triples; their positions are pairwise distinct, cover
  \<open>{0..height-1} \<times> {0..width-1}\<close>, and come in row-major order: the \<open>n\<close>-th
  position is \<open>(n div width, n mod width)\<close>.
\<close>

theorem iter_kernel_row_major:
  assumes "wf_array img" "shape img = (h, w)" "1 \<le> h" "1 \<le> w" "0 \<le> sz"
    and "2 * sz + 1 \<le> ssize_max"
  shows "snd (iter_kernel img sz) = None
       \<and> length (fst (iter_kernel img sz)) = h * w
       \<and> distinct (map fst (fst (iter_kernel img sz)))
       \<and> set (map fst (fst (iter_kernel img sz))) = {0..<h} \<times> {0..<w}
       \<and> map fst (fst (iter_kernel img sz)) = map (\<lambda>n. (n div w, n mod w)) [0..<h * w]"
proof -
  have pp: "map fst (fst (iter_kernel img sz)) = pixel_positions (h, w)"
    using assms by (simp add: iter_kernel_eq comp_def)
  have "snd (iter_kernel img sz) = None"
    using assms by (simp add: iter_kernel_eq)
  moreover have "length (fst (iter_kernel img sz)) = h * w"
    using assms by (simp add: iter_kernel_eq length_pixel_positions)
  moreover have "distinct (map fst (fst (iter_kernel img sz)))"
    unfolding pp by (rule distinct_pixel_positions)
  moreover have "set (map fst (fst (iter_kernel img sz))) = {0..<h} \<times> {0..<w}"
    unfolding pp by (rule set_pixel_positions)
  moreover have "map fst (fst (iter_kernel img sz)) = map (\<lambda>n. (n div w, n mod w)) [0..<h * w]"
    unfolding pp by (rule pixel_positions_row_major)
  ultimately show ?thesis by (intro conjI)
qed

theorem iter_kernel_row_major_witness:
  "wf_array bright_square \<and> shape bright_square = (7, 7) \<and> (1::nat) \<le> 7 \<and> (0::int) \<le> 1
   \<and> 2 * (1::int) + 1 \<le> ssize_max
   \<and> snd (iter_kernel bright_square 1) = None
   \<and> length (fst (iter_kernel bright_square 1)) = 49
   \<and> distinct (map fst (fst (iter_kernel bright_square 1)))"
proof -
  have "snd (iter_kernel bright_square 1) = None
       \<and> length (fst (iter_kernel bright_square 1)) = 7 * 7
       \<and> distinct (map fst (fst (iter_kernel bright_square 1)))
       \<and> set (map fst (fst (iter_kernel bright_square 1))) = {0..<7} \<times> {0..<7}
       \<and> map fst (fst (iter_kernel bright_square 1)) = map (\<lambda>n. (n div 7, n mod 7)) [0..<7 * 7]"
    by (rule iter_kernel_row_major) (simp_all add: bright_square_wf)
  then have "snd (iter_kernel bright_square 1) = None"
    and "length (fst (iter_kernel bright_square 1)) = 7 * 7"
    and "distinct (map fst (fst (iter_kernel bright_square 1)))"
    by blast+
  then show ?thesis by (simp add: bright_square_wf)
qed

text \<open>
  As first stated, C3 holds for every non-negative size. With size \<open>2^62\<close> the width
  \<open>2^63 + 1\<close> does not fit the primitive's size argument: the first \<open>next\<close> raises
  OverflowError and no triple is yielded, on a one-pixel image already.
\<close>

theorem iter_kernel_overflow_counterexample:
  "iter_kernel \<lparr>shape = (1, 1), rows = [[5::int]]\<rparr> (2 ^ 62) = ([], Some OverflowError)"
  by (simp add: iter_kernel_def iter_pixels_def pixel_positions_def getitem_def setitem_def
      kernel_step_def np_zeros_def grey_dilation_def ssize_max_def Let_def upt_conv_Cons)

text \<open>
  Claim C4 (as amended). A negative size or an image with no rows or no columns is not
  rejected: the run raises nothing and ends normally after one triple per position, in
  row-major order, that is after \<open>height * width\<close> triples, none for an image
  with a zero dimension.
\<close>

theorem iter_kernel_no_validation:
  assumes "sz < 0 \<or> fst (shape img) = 0 \<or> snd (shape img) = 0"
  shows "snd (iter_kernel img sz) = None
       \<and> map fst (fst (iter_kernel img sz)) = pixel_positions (shape img)
       \<and> length (fst (iter_kernel img sz)) = fst (shape img) * snd (shape img)"
proof (cases "2 * sz + 1 \<le> ssize_max")
  case True
  let ?pixels = "map (\<lambda>p. (p, rows img ! fst p ! snd p)) (pixel_positions (shape img))"
  have "snd (yield_each (kernel_step img sz) ?pixels) = None
        \<and> map fst (fst (yield_each (kernel_step img sz) ?pixels)) = map fst ?pixels"
  proof (rule yield_each_positions)
    fix x assume "x \<in> set ?pixels"
    then have "fst x \<in> set (pixel_positions (fst (shape img), snd (shape img)))" by auto
    then have "fst (fst x) < fst (shape img)" "snd (fst x) < snd (shape img)"
      by (auto simp only: set_pixel_positions mem_Times_iff atLeastLessThan_iff)
    then show "\<exists>y. kernel_step img sz x = Inr y \<and> fst y = fst x"
      using True by (rule kernel_step_total)
  qed
  then have 1: "snd (iter_kernel img sz) = None"
    and 2: "map fst (fst (iter_kernel img sz)) = pixel_positions (shape img)"
    by (simp_all add: iter_kernel_def iter_pixels_total case_prod_beta comp_def)
  from 2 have "length (fst (iter_kernel img sz)) = length (pixel_positions (fst (shape img), snd (shape img)))"
    by (metis length_map prod.collapse)
  with 1 2 show ?thesis by (simp only: length_pixel_positions simp_thms)
next
  case False
  then have "0 \<le> sz" by (simp add: ssize_max_def)
  with assms have z: "fst (shape img) * snd (shape img) = 0" by auto
  have "length (pixel_positions (fst (shape img), snd (shape img))) = 0"
    by (simp only: length_pixel_positions z)
  then have e: "pixel_positions (shape img) = []" by simp
  from False have "ssize_max < 2 * sz + 1" by simp
  from iter_kernel_raises_overflow [OF this, of img] e z show ?thesis by simp
qed

theorem iter_kernel_no_validation_witness:
  "(- 3 :: int) < 0
   \<and> snd (iter_kernel bright_square (- 3)) = None
   \<and> length (fst (iter_kernel bright_square (- 3))) = 49"
  using iter_kernel_no_validation [of "- 3" bright_square]
  by (simp add: bright_square_def tabulate_def)

text \<open>
  As first stated, C4 has the iterator raise before any triple for a negative size or an
  empty image. With size \<open>-1\<close> on a one-pixel image the run yields one triple (the
  dilation of width \<open>-1\<close> is a copy, the slice is empty) and ends normally; with no
  rows or no columns it yields nothing and ends normally.
\<close>

theorem iter_kernel_invalid_argument_counterexample:
  "iter_kernel \<lparr>shape = (1, 1), rows = [[5::int]]\<rparr> (- 1)
     = ([((0, 0), \<lparr>shape = (1, 1), rows = [[2]]\<rparr>, \<lparr>shape = (0, 0), rows = []\<rparr>)], None)
   \<and> iter_kernel \<lparr>shape = (0, 3), rows = ([] :: int list list)\<rparr> 1 = ([], None)
   \<and> iter_kernel \<lparr>shape = (2, 0), rows = [[], [] :: int list]\<rparr> 1 = ([], None)"
  by (simp add: iter_kernel_def iter_pixels_def pixel_positions_def getitem_def setitem_def
      kernel_step_def np_zeros_def grey_dilation_def ssize_max_def getslice2_def getslice_def
      slice_indices_def bounded_slice_def Let_def upt_conv_Cons)

text \<open>
  Claim C5. With size 0 and an image of height and width at least 1, every yielded
  window has shape \<open>(1, 1)\<close> and holds the pixel at the position, and every yielded
  mask holds 2 at the position and 0 in every other cell: exactly one cell is 2 and no
  cell is 1.
\<close>

theorem iter_kernel_size_zero:
  assumes "wf_array img" "shape img = (h, w)" "1 \<le> h" "1 \<le> w" "n < h * w"
  shows "case fst (iter_kernel img 0) ! n of (p, m, win) \<Rightarrow>
           p = (n div w, n mod w)
         \<and> (\<exists>x. getitem img p = Inr x \<and> win = \<lparr>shape = (1, 1), rows = [[x]]\<rparr>)
         \<and> shape m = (h, w) \<and> wf_array m
         \<and> (\<forall>r<h. \<forall>c<w. getitem m (r, c) = Inr (if (r, c) = p then 2 else 0))
         \<and> length (filter (\<lambda>v. v = 2) (concat (rows m))) = 1
         \<and> 1 \<notin> set (concat (rows m))"
proof -
  note b = nth_pixel_positions_bounds [OF assms(5)]
  let ?p = "(n div w, n mod w)"
  let ?m = "tabulate (h, w) (\<lambda>r c. if (r, c) = ?p then 2 else (0::int))"
  have m: "clamped_mask (h, w) 0 ?p = ?m"
    using b by (simp add: clamped_mask_zero)
  have win: "clamped_window img 0 ?p = \<lparr>shape = (1, 1), rows = [[rows img ! (n div w) ! (n mod w)]]\<rparr>"
    using b assms(2) by (simp add: clamped_window_zero)
  have px: "getitem img ?p = Inr (rows img ! (n div w) ! (n mod w))"
    using b assms(2) by (simp add: getitem_def)
  have sh: "shape ?m = (h, w)" by (simp add: tabulate_def)
  have cells: "\<forall>r<h. \<forall>c<w. getitem ?m (r, c) = Inr (if (r, c) = ?p then 2 else 0)"
    by (simp add: getitem_tabulate)
  have cnt: "length (filter (\<lambda>v. v = 2) (concat (rows ?m))) = 1" "1 \<notin> set (concat (rows ?m))"
    using single_centre_counts [of ?p "(h, w)"] b by simp_all
  have ex: "\<exists>x. getitem img ?p = Inr x
      \<and> \<lparr>shape = (1, 1), rows = [[rows img ! (n div w) ! (n mod w)]]\<rparr> = \<lparr>shape = (1, 1), rows = [[x]]\<rparr>"
    using px by blast
  have fits: "2 * (0::int) + 1 \<le> ssize_max" by simp
  show ?thesis
    unfolding nth_iter_kernel [OF assms(1,2) order_refl fits assms(5)] prod.case m win
    using ex sh cells cnt wf_tabulate [of "(h, w)"] by (intro conjI refl)
qed

theorem iter_kernel_size_zero_witness:
  "wf_array bright_square \<and> shape bright_square = (7, 7) \<and> (1::nat) \<le> 7 \<and> (16::nat) < 7 * 7
   \<and> fst (fst (iter_kernel bright_square 0) ! 16) = (2, 2)
   \<and> snd (snd (fst (iter_kernel bright_square 0) ! 16)) = \<lparr>shape = (1, 1), rows = [[1]]\<rparr>
   \<and> length (filter (\<lambda>v. v = 2) (concat (rows (fst (snd (fst (iter_kernel bright_square 0) ! 16)))))) = 1"
proof -
  have "case fst (iter_kernel bright_square 0) ! 16 of (p, m, win) \<Rightarrow>
           p = (16 div 7, 16 mod 7)
         \<and> (\<exists>x. getitem bright_square p = Inr x \<and> win = \<lparr>shape = (1, 1), rows = [[x]]\<rparr>)
         \<and> shape m = (7, 7) \<and> wf_array m
         \<and> (\<forall>r<7. \<forall>c<7. getitem m (r, c) = Inr (if (r, c) = p then 2 else 0))
         \<and> length (filter (\<lambda>v. v = 2) (concat (rows m))) = 1
         \<and> 1 \<notin> set (concat (rows m))"
    by (rule iter_kernel_size_zero) (simp_all add: bright_square_wf)
  moreover obtain p m win where t: "fst (iter_kernel bright_square 0) ! 16 = (p, m, win)"
    by (metis prod_cases3)
  ultimately have p: "p = (2, 2)"
    and x: "\<exists>x. getitem bright_square p = Inr x \<and> win = \<lparr>shape = (1, 1), rows = [[x]]\<rparr>"
    and c: "length (filter (\<lambda>v. v = 2) (concat (rows m))) = 1"
    by auto
  have "getitem bright_square (2, 2) = Inr 1"
    by (simp add: bright_square_def getitem_tabulate)
  with p x have "win = \<lparr>shape = (1, 1), rows = [[1]]\<rparr>" by auto
  with p c t show ?thesis by (simp add: bright_square_wf)
qed




text \<open>
  Claim C7. The iterator is deterministic: two runs on images with the same content
  and the same size, from any two stores and at any two addresses, yield the same
  sequence of positions, mask contents and window contents, and end the same way; the
  sequence is the one the image and the size determine.
\<close>

theorem iter_kernel_deterministic:
  assumes "a1 < length (images h1)" "a2 < length (images h2)"
    and "images h1 ! a1 = images h2 ! a2"
  shows "fst (drain_kernel (iter_kernel_gen h1 a1 sz) h1)
           = fst (drain_kernel (iter_kernel_gen h2 a2 sz) h2)
       \<and> fst (drain_kernel (iter_kernel_gen h1 a1 sz) h1) = iter_kernel (images h1 ! a1) sz"
  using assms(3) by (simp add: drain_kernel_run)

theorem iter_kernel_deterministic_witness:
  "images \<lparr>images = [bright_square], masks = []\<rparr> ! 0
     = images \<lparr>images = [tabulate (2, 2) (\<lambda>r c. 0), bright_square], masks = [np_zeros (1, 1)]\<rparr> ! 1
   \<and> (0::nat) < length (images \<lparr>images = [bright_square], masks = []\<rparr>)
   \<and> (1::nat) < length (images \<lparr>images = [tabulate (2, 2) (\<lambda>r c. 0), bright_square],
                                 masks = [np_zeros (1, 1)]\<rparr>)
   \<and> fst (drain_kernel (iter_kernel_gen \<lparr>images = [bright_square], masks = []\<rparr> 0 1)
                        \<lparr>images = [bright_square], masks = []\<rparr>)
     = fst (drain_kernel (iter_kernel_gen \<lparr>images = [tabulate (2, 2) (\<lambda>r c. 0), bright_square],
                                           masks = [np_zeros (1, 1)]\<rparr> 1 1)
                        \<lparr>images = [tabulate (2, 2) (\<lambda>r c. 0), bright_square],
                         masks = [np_zeros (1, 1)]\<rparr>)"
  using iter_kernel_deterministic [of 0 "\<lparr>images = [bright_square], masks = []\<rparr>" 1
      "\<lparr>images = [tabulate (2, 2) (\<lambda>r c. 0), bright_square], masks = [np_zeros (1, 1)]\<rparr>" 1]
  by simp

text \<open>
  Claim C8. Whatever the caller does between two \<open>next\<close>, writing into masks it
  was given before, the iterator never changes the image, every yielded mask sits at an
  address of its own that was not allocated before the run, and every window is a view
  of the image that still reads the clamped slice. A yielded mask that the caller did
  not write into holds the content it was yielded with, whether the other masks were
  written before or after it was yielded.
\<close>

theorem yielded_masks_independent:
  assumes "a < length (images h0)"
    and "interact acts ([], iter_kernel_gen h0 a sz, h0) = (ys, g, h)"
  shows "images h = images h0
       \<and> distinct (map (\<lambda>y. fst (snd y)) ys)
       \<and> length ys = min (length (filter (\<lambda>c. c = Next) acts))
                         (length (fst (iter_kernel (images h0 ! a) sz)))
       \<and> (\<forall>k<length ys. case ys ! k of (p, m, v) \<Rightarrow>
            length (masks h0) \<le> m \<and> m < length (masks h)
          \<and> base v = a
          \<and> p = fst (fst (iter_kernel (images h0 ! a) sz) ! k)
          \<and> deref_view h v = snd (snd (fst (iter_kernel (images h0 ! a) sz) ! k))
          \<and> ((\<forall>x. Mutate k x \<notin> set acts) \<longrightarrow>
               masks h ! m = fst (snd (fst (iter_kernel (images h0 ! a) sz) ! k))))"
proof (cases "2 * sz + 1 \<le> ssize_max")
  case False
  let ?g = "iter_kernel_gen h0 a sz"
  from False have over: "ssize_max < 2 * g_size ?g + 1" by (simp add: iter_kernel_gen_def)
  have "set (g_pending ?g) \<subseteq>
      {0..<fst (shape (images h0 ! g_image ?g))} \<times> {0..<snd (shape (images h0 ! g_image ?g))}"
    using set_pixel_positions [of "fst (shape (images h0 ! a))" "snd (shape (images h0 ! a))"]
    by (simp add: iter_kernel_gen_def)
  from interact_overflow [OF over this, of acts] assms(2)
  have ys: "ys = []" and img: "images h = images h0" by simp_all
  from False have "fst (iter_kernel (images h0 ! a) sz) = []"
    by (simp add: iter_kernel_raises_overflow)
  with ys img show ?thesis by simp
next
  case fits: True
  let ?sh = "shape (images h0 ! a)"
  let ?ps = "pixel_positions ?sh"
  let ?K = "{k. \<exists>x. Mutate k x \<in> set acts}"
  let ?it = "fst (iter_kernel (images h0 ! a) sz)"
  from session_inv_interact [OF session_inv_init fits, of h0 a acts] assms(2)
  have "session_inv h0 a sz ?K (ys, g, h)"
    and len: "length ys = min (length (filter (\<lambda>c. c = Next) acts)) (length ?ps)"
    by simp_all
  then have inv:
    "images h = images h0" "length ys \<le> length ?ps"
    "length (masks h) = length (masks h0) + 2 * length ys"
    "\<And>k. k < length ys \<Longrightarrow> ys ! k =
        (?ps ! k, length (masks h0) + 2 * k + 1, \<lparr>base = a, slices = kernel_slices ?sh sz (?ps ! k)\<rparr>)"
    "\<And>k. k < length ys \<Longrightarrow> k \<notin> ?K \<Longrightarrow>
        masks h ! (length (masks h0) + 2 * k + 1) = kernel_mask ?sh sz (?ps ! k)"
    by (simp_all add: session_inv_def Let_def)
  have it: "?it = map (\<lambda>p. (p, kernel_mask ?sh sz p, getslice2 (images h0 ! a) (kernel_slices ?sh sz p))) ?ps"
    by (simp add: iter_kernel_value [OF fits])
  have itlen: "length ?it = length ?ps" by (simp add: it)
  have "map (\<lambda>y. fst (snd y)) ys = map (\<lambda>k. length (masks h0) + 2 * k + 1) [0..<length ys]"
    by (rule nth_equalityI) (simp_all add: inv(4))
  moreover have "distinct (map (\<lambda>k. length (masks h0) + 2 * k + 1) [0..<length ys])"
    by (simp add: distinct_map inj_on_def)
  ultimately have dist: "distinct (map (\<lambda>y. fst (snd y)) ys)" by simp
  have each: "case ys ! k of (p, m, v) \<Rightarrow>
            length (masks h0) \<le> m \<and> m < length (masks h)
          \<and> base v = a
          \<and> p = fst (?it ! k)
          \<and> deref_view h v = snd (snd (?it ! k))
          \<and> ((\<forall>x. Mutate k x \<notin> set acts) \<longrightarrow> masks h ! m = fst (snd (?it ! k)))"
    if k: "k < length ys" for k
  proof -
    have kp: "k < length ?ps" using k inv(2) by simp
    have nth: "?it ! k = (?ps ! k, kernel_mask ?sh sz (?ps ! k),
        getslice2 (images h0 ! a) (kernel_slices ?sh sz (?ps ! k)))"
      using kp by (simp add: it)
    have m: "(\<forall>x. Mutate k x \<notin> set acts) \<longrightarrow>
        masks h ! (length (masks h0) + 2 * k + 1) = kernel_mask ?sh sz (?ps ! k)"
      using inv(5) [OF k] by blast
    show ?thesis
      unfolding inv(4) [OF k] nth prod.case
      using k m by (simp add: inv(1,3) deref_view_def)
  qed
  from inv(1) dist len each show ?thesis
    unfolding itlen by blast
qed

theorem yielded_masks_independent_witness:
  "(0::nat) < length (images demo_heap)
   \<and> images (snd (snd demo_session)) = images demo_heap
   \<and> length (fst demo_session) = 2
   \<and> masks (snd (snd demo_session)) ! fst (snd (fst demo_session ! 1))
       = fst (snd (fst (iter_kernel (images demo_heap ! 0) 1) ! 1))"
proof -
  let ?acts = "[Next, Mutate 0 (np_zeros (7, 7)), Next]"
  let ?it = "fst (iter_kernel (images demo_heap ! 0) 1)"
  have a: "0 < length (images demo_heap)" by (simp add: demo_heap_def)
  have run: "interact ?acts ([], iter_kernel_gen demo_heap 0 1, demo_heap)
      = (fst demo_session, fst (snd demo_session), snd (snd demo_session))"
    by (simp add: demo_session_def)
  have n: "length ?it = 49"
    by (simp add: length_iter_kernel demo_heap_def bright_square_wf)
  note main = yielded_masks_independent [OF a run]
  note img = main [THEN conjunct1]
  note len = main [THEN conjunct2, THEN conjunct2, THEN conjunct1]
  note each = main [THEN conjunct2, THEN conjunct2, THEN conjunct2]
  from len n have two: "length (fst demo_session) = 2" by simp
  from two have lt: "1 < length (fst demo_session)" by simp
  note each [rule_format, OF lt]
  moreover have "\<forall>x. Mutate 1 x \<notin> set ?acts" by simp
  ultimately have "case fst demo_session ! 1 of (p, m, v) \<Rightarrow>
               masks (snd (snd demo_session)) ! m = fst (snd (?it ! 1))"
    by (simp only: case_prod_beta) blast
  then have "masks (snd (snd demo_session)) ! fst (snd (fst demo_session ! 1)) = fst (snd (?it ! 1))"
    by (simp add: case_prod_beta)
  with a img two show ?thesis by simp
qed

text \<open>
  Claim C9 (as amended). Given at least two images, each with at least one cell, and
  either no titles or at least as many titles as images, \<open>imshow_all\<close> leaves a
  figure of one row and as many columns as images; the panel \<open>n\<close> shows the \<open>n\<close>-th
  image converted to float, on the scale from the least to the greatest cell of all the
  converted images, under the \<open>n\<close>-th title, or under the empty title when no titles
  were given.
\<close>

theorem imshow_all_single_row:
  assumes "2 \<le> length imgs"
    and "\<forall>img\<in>set imgs. concat (rows (img_as_float img)) \<noteq> []"
    and "titles = None \<or> (\<exists>ts. titles = Some ts \<and> length imgs \<le> length ts)"
  shows "\<exists>fig. imshow_all img_as_float imgs titles = Inr fig
       \<and> f_nrows fig = 1 \<and> f_ncols fig = length imgs
       \<and> length (f_panels fig) = length imgs
       \<and> (\<forall>n<length imgs.
             f_panels fig ! n =
               \<lparr>p_axis = n, p_image = img_as_float (imgs ! n),
                p_vmin = Min (set (concat (map (\<lambda>img. concat (rows (img_as_float img))) imgs))),
                p_vmax = Max (set (concat (map (\<lambda>img. concat (rows (img_as_float img))) imgs))),
                p_title = (case titles of None \<Rightarrow> [] | Some ts \<Rightarrow> ts ! n)\<rparr>)"
proof -
  let ?images = "map img_as_float imgs"
  let ?labels = "case titles of None \<Rightarrow> replicate (length ?images) [] | Some ts \<Rightarrow> ts"
  let ?vmin = "Min (set (concat (map (\<lambda>img. concat (rows (img_as_float img))) imgs)))"
  let ?vmax = "Max (set (concat (map (\<lambda>img. concat (rows (img_as_float img))) imgs)))"
  have ne: "?images \<noteq> []" using assms(1) by auto
  have cells: "\<And>a. a \<in> set ?images \<Longrightarrow> concat (rows a) \<noteq> []" using assms(2) by auto
  have vmin: "min_map np_min ?images = Inr ?vmin"
    using min_map_np_min [OF ne cells] by (simp add: comp_def)
  have vmax: "max_map np_max ?images = Inr ?vmax"
    using max_map_np_max [OF ne cells] by (simp add: comp_def)
  have axes: "subplots_ravel 1 (length ?images) = Inr [0..<length imgs]"
    using assms(1) by (simp add: subplots_ravel_def)
  have lab: "length imgs \<le> length ?labels"
    using assms(3) by auto
  have labn: "?labels ! n = (case titles of None \<Rightarrow> [] | Some ts \<Rightarrow> ts ! n)"
    if "n < length imgs" for n
    using that by (cases titles) simp_all
  let ?fig = "\<lparr>f_nrows = 1, f_ncols = length imgs, f_figsize = (5 * length imgs, 5),
      f_panels = map (\<lambda>(ax, img, label).
          \<lparr>p_axis = ax, p_image = img, p_vmin = ?vmin, p_vmax = ?vmax, p_title = label\<rparr>)
        (zip [0..<length imgs] (zip ?images ?labels))\<rparr>"
  have res: "imshow_all img_as_float imgs titles = Inr ?fig"
    unfolding imshow_all_def Let_def vmin vmax axes sum.case by simp
  have len: "length (f_panels ?fig) = length imgs" using lab by simp
  have nth: "f_panels ?fig ! n =
      \<lparr>p_axis = n, p_image = img_as_float (imgs ! n), p_vmin = ?vmin, p_vmax = ?vmax,
       p_title = (case titles of None \<Rightarrow> [] | Some ts \<Rightarrow> ts ! n)\<rparr>"
    if "n < length imgs" for n
    using that lab labn [OF that] by simp
  from res len nth show ?thesis by (intro exI [of _ ?fig]) simp
qed

theorem imshow_all_single_row_witness:
  "(2::nat) \<le> length [\<lparr>shape = (1, 1), rows = [[3::real]]\<rparr>, \<lparr>shape = (1, 2), rows = [[- 1, 5]]\<rparr>]
   \<and> (\<exists>fig. imshow_all (\<lambda>x. x)
              [\<lparr>shape = (1, 1), rows = [[3]]\<rparr>, \<lparr>shape = (1, 2), rows = [[- 1, 5]]\<rparr>] None = Inr fig
          \<and> f_nrows fig = 1 \<and> f_ncols fig = 2 \<and> length (f_panels fig) = 2
          \<and> p_image (f_panels fig ! 1) = \<lparr>shape = (1, 2), rows = [[- 1, 5]]\<rparr>
          \<and> p_vmin (f_panels fig ! 1) = - 1 \<and> p_vmax (f_panels fig ! 1) = 5
          \<and> p_title (f_panels fig ! 1) = [])"
proof -
  let ?imgs = "[\<lparr>shape = (1, 1), rows = [[3::real]]\<rparr>, \<lparr>shape = (1, 2), rows = [[- 1, 5]]\<rparr>]"
  have 1: "2 \<le> length ?imgs" by simp
  have 2: "\<forall>img\<in>set ?imgs. concat (rows ((\<lambda>x. x) img)) \<noteq> []" by simp
  have 3: "(None :: string list option) = None \<or> (\<exists>ts. None = Some ts \<and> length ?imgs \<le> length ts)"
    by simp
  from imshow_all_single_row [OF 1 2 3]
  obtain fig where fig: "imshow_all (\<lambda>x. x) ?imgs None = Inr fig"
    "f_nrows fig = 1" "f_ncols fig = length ?imgs" "length (f_panels fig) = length ?imgs"
    "\<forall>n<length ?imgs. f_panels fig ! n =
       \<lparr>p_axis = n, p_image = ?imgs ! n,
        p_vmin = Min (set (concat (map (\<lambda>img. concat (rows img)) ?imgs))),
        p_vmax = Max (set (concat (map (\<lambda>img. concat (rows img)) ?imgs))),
        p_title = (case (None :: string list option) of None \<Rightarrow> [] | Some ts \<Rightarrow> ts ! n)\<rparr>"
    by blast
  from fig(5) have "f_panels fig ! 1 =
       \<lparr>p_axis = 1, p_image = \<lparr>shape = (1, 2), rows = [[- 1, 5]]\<rparr>,
        p_vmin = - 1, p_vmax = 5, p_title = []\<rparr>"
    by simp
  with fig(1-4) show ?thesis by (intro conjI exI [of _ fig]) simp_all
qed

text \<open>
  As first stated, C9 is about any number of images and titles. Without images the call
  raises ValueError, with one image AttributeError, and with two images and one title
  only the first panel is drawn.
\<close>

theorem imshow_all_counterexample:
  "imshow_all (\<lambda>x. x) [] None = Inl ValueError
   \<and> imshow_all (\<lambda>x. x) [\<lparr>shape = (1, 1), rows = [[3]]\<rparr>] None = Inl AttributeError
   \<and> imshow_all (\<lambda>x. x)
        [\<lparr>shape = (1, 1), rows = [[3]]\<rparr>, \<lparr>shape = (1, 2), rows = [[- 1, 5]]\<rparr>] (Some [''a''])
      = Inr \<lparr>f_nrows = 1, f_ncols = 2, f_figsize = (10, 5),
             f_panels = [\<lparr>p_axis = 0, p_image = \<lparr>shape = (1, 1), rows = [[3]]\<rparr>,
                          p_vmin = - 1, p_vmax = 5, p_title = ''a''\<rparr>]\<rparr>"
  by (simp add: imshow_all_def min_map_def max_map_def np_min_def np_max_def subplots_ravel_def
      upt_conv_Cons)

text \<open>
  Claim C10. In a session of calls of the step function, on an image of any pixel type,
  a call with step index \<open>k\<close> keeps every cached frame as it is (the cache only
  grows, to \<open>k + 1\<close> entries at most, and no array of the store that existed before
  the call is modified); a call for a step that is already cached changes neither the
  cache nor the store nor the generator; the generator has advanced once per cached
  frame; and the frame \<open>m\<close> is the frame \<open>m - 1\<close> (the image, for \<open>m = 0\<close>) with
  exactly the pixel at the \<open>m\<close>-th position in row-major order overwritten, by
  \<open>np.sum(mean_factor * subimage)\<close> converted to the pixel type.
\<close>

theorem mean_filter_step_frames:
  assumes "a < length (images h0)" "wf_array (images h0 ! a)" "shape (images h0 ! a) = (H, W)"
    and "run_demo ar lab ks (mean_filter_demo h0 a, h0) = (d, h)"
    and "mean_filter_step ar lab k d h = (res, d', h')"
  shows "take (length (d_cache d)) (d_cache d') = d_cache d
       \<and> int (length (d_cache d')) \<le> max (int (length (d_cache d))) (k + 1)
       \<and> (\<forall>j<length (images h). images h' ! j = images h ! j)
       \<and> (\<forall>m<length (d_cache d). snd (d_cache d ! m) < length (images h))
       \<and> (0 \<le> k \<and> k < int (length (d_cache d)) \<longrightarrow>
             d' = d \<and> h' = h
           \<and> res = Inr (fst (d_cache d ! nat k), images h ! snd (d_cache d ! nat k)))
       \<and> g_pending (d_gen d') = drop (length (d_cache d')) (pixel_positions (H, W))
       \<and> (0 \<le> k \<and> k < int (H * W) \<and> (k = 0 \<or> d_cache d \<noteq> []) \<longrightarrow>
             (\<exists>ov fr. res = Inr (ov, fr))
           \<and> int (length (d_cache d')) = max (int (length (d_cache d))) (k + 1))
       \<and> (\<forall>m<length (d_cache d').
             m < H * W
           \<and> shape (images h' ! snd (d_cache d' ! m)) = (H, W)
           \<and> (\<forall>r<H. \<forall>c<W. getitem (images h' ! snd (d_cache d' ! m)) (r, c) =
                 (if (r, c) = (m div W, m mod W)
                  then Inr (astype ar (np_sum ar (scale ar (mean_factor ar)
                              (snd (snd (fst (iter_kernel (images h0 ! a) 1) ! m))))))
                  else getitem (if m = 0 then images h0 ! a
                                else images h' ! snd (d_cache d' ! (m - 1))) (r, c))))"
proof -
  have "demo_inv ar h0 a (run_demo ar lab ks (mean_filter_demo h0 a, h0))"
    using assms(1) demo_inv_init by (rule run_demo_inv)
  then have inv: "demo_inv ar h0 a (d, h)" by (simp only: assms(4))
  note p = mean_filter_step_props [OF assms(1,3) inv assms(5)]
  have "m < H * W
      \<and> shape (images h' ! snd (d_cache d' ! m)) = (H, W)
      \<and> (\<forall>r<H. \<forall>c<W. getitem (images h' ! snd (d_cache d' ! m)) (r, c) =
            (if (r, c) = (m div W, m mod W)
             then Inr (astype ar (np_sum ar (scale ar (mean_factor ar)
                         (snd (snd (fst (iter_kernel (images h0 ! a) 1) ! m))))))
             else getitem (if m = 0 then images h0 ! a
                           else images h' ! snd (d_cache d' ! (m - 1))) (r, c)))"
    if "m < length (d_cache d')" for m
    using demo_frames(1,3,4) [OF assms(1,2,3) p(1) that, unfolded filter_value_def]
    by (intro conjI)
  with p(2-8) show ?thesis by (intro conjI allI impI) blast+
qed

theorem mean_filter_step_frames_witness:
  "(0::nat) < length (images dot_heap) \<and> wf_array (images dot_heap ! 0)
   \<and> shape (images dot_heap ! 0) = (3, 3)
   \<and> length (d_cache (fst dot_session)) = 3
   \<and> fst (snd dot_revisit) = fst dot_session
   \<and> snd (snd dot_revisit) = snd dot_session
   \<and> fst dot_revisit = Inr (fst (d_cache (fst dot_session) ! 1),
                             images (snd dot_session) ! snd (d_cache (fst dot_session) ! 1))
   \<and> g_pending (d_gen (fst (snd dot_revisit))) = drop 3 (pixel_positions (3, 3))
   \<and> getitem (images (snd dot_session) ! snd (d_cache (fst dot_session) ! 1)) (0, 1) = Inr (1 / 9)
   \<and> getitem (images (snd dot_session) ! snd (d_cache (fst dot_session) ! 1)) (0, 0) = Inr (1 / 9)
   \<and> getitem centre_dot (0, 0) = Inr 0
   \<and> getitem (images (snd dot_session) ! snd (d_cache (fst dot_session) ! 1)) (0, 2) = Inr 0"
proof -
  have run: "run_demo exact (\<lambda>m i. ()) [0, 2] (mean_filter_demo dot_heap 0, dot_heap)
      = (fst dot_session, snd dot_session)"
    unfolding dot_session_def by simp
  have step: "mean_filter_step exact (\<lambda>m i. ()) 1 (fst dot_session) (snd dot_session)
      = (fst dot_revisit, fst (snd dot_revisit), snd (snd dot_revisit))"
    by (simp add: dot_revisit_def)
  note main = mean_filter_step_frames [OF dot_heap_image(1,2,3) run step]
  note c5 = main [THEN conjunct2, THEN conjunct2, THEN conjunct2, THEN conjunct2, THEN conjunct1]
  note c6 = main [THEN conjunct2, THEN conjunct2, THEN conjunct2, THEN conjunct2, THEN conjunct2,
      THEN conjunct1]
  note c8 = main [THEN conjunct2, THEN conjunct2, THEN conjunct2, THEN conjunct2, THEN conjunct2,
      THEN conjunct2, THEN conjunct2]
  have len: "length (d_cache (fst dot_session)) = 3" by (rule dot_session_length)
  from c5 len have d: "fst (snd dot_revisit) = fst dot_session"
    and h: "snd (snd dot_revisit) = snd dot_session"
    and res: "fst dot_revisit = Inr (fst (d_cache (fst dot_session) ! 1),
                             images (snd dot_session) ! snd (d_cache (fst dot_session) ! 1))"
    by simp_all
  from c6 have pend: "g_pending (d_gen (fst (snd dot_revisit))) = drop 3 (pixel_positions (3, 3))"
    by (simp add: d len)
  have lt0: "0 < length (d_cache (fst (snd dot_revisit)))"
    and lt1: "1 < length (d_cache (fst (snd dot_revisit)))"
    by (simp_all add: d len)
  note f0 = c8 [rule_format, OF lt0, THEN conjunct2, THEN conjunct2, unfolded d h]
  note f1 = c8 [rule_format, OF lt1, THEN conjunct2, THEN conjunct2, unfolded d h]
  have w0: "astype exact (np_sum exact (scale exact (mean_factor exact)
      (snd (snd (fst (iter_kernel (images dot_heap ! 0) 1) ! 0))))) = 1 / 9"
    unfolding dot_heap_image(4) dot_windows by (simp add: np_sum_def scale_def exact_def)
  have w1: "astype exact (np_sum exact (scale exact (mean_factor exact)
      (snd (snd (fst (iter_kernel (images dot_heap ! 0) 1) ! 1))))) = 1 / 9"
    unfolding dot_heap_image(4) dot_windows by (simp add: np_sum_def scale_def exact_def)
  have img: "getitem centre_dot (0, 0) = Inr 0" "getitem centre_dot (0, 2) = Inr 0"
    by (simp_all add: centre_dot_def getitem_tabulate)
  have a00: "getitem (images (snd dot_session) ! snd (d_cache (fst dot_session) ! 0)) (0, 0)
      = Inr (1 / 9)"
    using f0 [rule_format, of 0 0, unfolded w0] by simp
  have a02: "getitem (images (snd dot_session) ! snd (d_cache (fst dot_session) ! 0)) (0, 2)
      = Inr 0"
    using f0 [rule_format, of 0 2] by (simp add: dot_heap_image(4) img)
  have b01: "getitem (images (snd dot_session) ! snd (d_cache (fst dot_session) ! 1)) (0, 1)
      = Inr (1 / 9)"
    using f1 [rule_format, of 0 1, unfolded w1] by simp
  have b00: "getitem (images (snd dot_session) ! snd (d_cache (fst dot_session) ! 1)) (0, 0)
      = Inr (1 / 9)"
    using f1 [rule_format, of 0 0] by (simp add: a00)
  have b02: "getitem (images (snd dot_session) ! snd (d_cache (fst dot_session) ! 1)) (0, 2)
      = Inr 0"
    using f1 [rule_format, of 0 2] by (simp add: a02)
  from len d h res pend b01 b00 img(1) b02 dot_heap_image(1,2,3) show ?thesis
    by (intro conjI)
qed

end
